theory Spec2Isabelle
  imports Main "HOL-Library.Sublist"
begin

section \<open>Python text\<close>

text \<open>
  A Python \<open>str\<close> is a sequence of Unicode code points, and \<open>len\<close>, slicing and
  comparison work on code points. The embedding therefore takes a text to be a list of
  code points, written as natural numbers; \<open>str ''abc''\<close> is the text of an ASCII literal.
  The case mappings below cover the ASCII letters and leave every other code point
  unchanged: the Unicode case tables are data of the interpreter, not of this program.
\<close>

type_synonym codepoint = nat
type_synonym pystr = "codepoint list"

definition str :: "string \<Rightarrow> pystr" where
  "str s = map of_char s"

definition upper_cp :: "codepoint \<Rightarrow> codepoint" where
  "upper_cp c = (if 97 \<le> c \<and> c \<le> 122 then c - 32 else c)"

definition lower_cp :: "codepoint \<Rightarrow> codepoint" where
  "lower_cp c = (if 65 \<le> c \<and> c \<le> 90 then c + 32 else c)"

definition is_cased :: "codepoint \<Rightarrow> bool" where
  "is_cased c \<longleftrightarrow> (65 \<le> c \<and> c \<le> 90) \<or> (97 \<le> c \<and> c \<le> 122)"


definition is_space :: "codepoint \<Rightarrow> bool" where
  \<comment> \<open>the code points \<open>str.isspace\<close> accepts, which \<open>str.strip()\<close> removes\<close>
  "is_space c \<longleftrightarrow>
     (9 \<le> c \<and> c \<le> 13) \<or> (28 \<le> c \<and> c \<le> 32) \<or> c = 0x85 \<or> c = 0xA0 \<or> c = 0x1680 \<or>
     (0x2000 \<le> c \<and> c \<le> 0x200A) \<or> c = 0x2028 \<or> c = 0x2029 \<or> c = 0x202F \<or>
     c = 0x205F \<or> c = 0x3000"

definition strip :: "pystr \<Rightarrow> pystr" where
  "strip s = rev (dropWhile is_space (rev (dropWhile is_space s)))"

definition stripped :: "pystr \<Rightarrow> bool" where
  "stripped t \<longleftrightarrow> t = [] \<or> (\<not> is_space (hd t) \<and> \<not> is_space (last t))"

definition startswith :: "'a list \<Rightarrow> 'a list \<Rightarrow> bool" where
  "startswith s p = prefix p s"

text \<open>
  \<open>s.split(sep)\<close> for a non-empty separator: the pieces between the occurrences of
  \<open>sep\<close>, found from the left and not overlapping. (Python raises ValueError on an
  empty separator; the program only splits on the fence marker.)
\<close>

fun split :: "'a list \<Rightarrow> 'a list \<Rightarrow> 'a list list" where
  "split sep [] = [[]]"
| "split sep (c # cs) =
     (if sep \<noteq> [] \<and> prefix sep (c # cs) then [] # split sep (drop (length sep - 1) cs)
      else (case split sep cs of [] \<Rightarrow> [[c]] | p # ps \<Rightarrow> (c # p) # ps))"

fun join :: "'a list \<Rightarrow> 'a list list \<Rightarrow> 'a list" where
  "join sep [] = []"
| "join sep [x] = x"
| "join sep (x # y # ys) = x @ sep @ join sep (y # ys)"

definition replace_cp :: "codepoint \<Rightarrow> codepoint \<Rightarrow> pystr \<Rightarrow> pystr" where
  \<comment> \<open>\<open>s.replace(a, b)\<close> for one-character \<open>a\<close> and \<open>b\<close>\<close>
  "replace_cp a b s = map (\<lambda>c. if c = a then b else c) s"

fun title_from :: "bool \<Rightarrow> pystr \<Rightarrow> pystr" where
  \<comment> \<open>\<open>str.title\<close>: a cased character after a cased one is lowercased, any other is
     titlecased; the flag says whether the previous character was cased\<close>
  "title_from prev [] = []"
| "title_from prev (c # cs) = (if prev then lower_cp c else upper_cp c) # title_from (is_cased c) cs"

definition title :: "pystr \<Rightarrow> pystr" where
  "title s = title_from False s"

function nat_repr :: "nat \<Rightarrow> pystr" where
  "nat_repr n = (if n < 10 then [48 + n] else nat_repr (n div 10) @ [48 + n mod 10])"
  by pat_completeness auto
termination
  by (relation "measure id") auto

definition int_repr :: "int \<Rightarrow> pystr" where
  "int_repr i = (if i < 0 then 45 # nat_repr (nat (- i)) else nat_repr (nat i))"

definition hexdigit :: "nat \<Rightarrow> codepoint" where
  "hexdigit d = (if d < 10 then 48 + d else 87 + d)"

section \<open>Python values and errors\<close>

text \<open>
  The values \<open>json.loads\<close> builds, floats apart: \<open>None\<close>, booleans, integers, texts,
  lists and dictionaries with text keys. A dictionary keeps its keys in insertion order
  and holds each key once, so it is an association list; \<open>dict_set\<close> is the assignment
  \<open>d[k] = v\<close>. Floats are outside the embedding, and so is every response that holds one.
\<close>

datatype json =
    JNull
  | JBool bool
  | JInt int
  | JStr pystr
  | JArr "json list"
  | JObj "(pystr \<times> json) list"

datatype py_error =
    IndexError | KeyError | TypeError | AttributeError | ValueError

fun dict_set :: "'k \<Rightarrow> 'v \<Rightarrow> ('k \<times> 'v) list \<Rightarrow> ('k \<times> 'v) list" where
  "dict_set k v [] = [(k, v)]"
| "dict_set k v ((k', v') # d) = (if k = k' then (k, v) # d else (k', v') # dict_set k v d)"

definition dict_of_pairs :: "('k \<times> 'v) list \<Rightarrow> ('k \<times> 'v) list" where
  "dict_of_pairs ps = foldl (\<lambda>d (k, v). dict_set k v d) [] ps"

definition bind :: "py_error + 'a \<Rightarrow> ('a \<Rightarrow> py_error + 'b) \<Rightarrow> py_error + 'b" where
  "bind m f = (case m of Inl e \<Rightarrow> Inl e | Inr x \<Rightarrow> f x)"

fun truthy :: "json \<Rightarrow> bool" where
  "truthy JNull = False"
| "truthy (JBool b) = b"
| "truthy (JInt i) = (i \<noteq> 0)"
| "truthy (JStr s) = (s \<noteq> [])"
| "truthy (JArr vs) = (vs \<noteq> [])"
| "truthy (JObj d) = (d \<noteq> [])"

section \<open>The JSON decoder and encoder of the standard library\<close>

text \<open>
  \<open>json.loads\<close> as the interpreter's scanner does it: whitespace is space, tab, line
  feed and carriage return; a text is closed by a double quote, holds no control
  character, and its escapes are the eight short ones and \<open>\uXXXX\<close>, a high surrogate
  followed by a low one making one code point; a number is an optional minus and
  \<open>0\<close> or a digit sequence that does not start with \<open>0\<close>. A fraction or an exponent
  after the digits makes the literal a float in Python: here it stays in the rest of the
  text, where no caller accepts it, so that such a text does not decode in the model.
\<close>

definition json_ws :: "codepoint \<Rightarrow> bool" where
  "json_ws c \<longleftrightarrow> c = 32 \<or> c = 9 \<or> c = 10 \<or> c = 13"

definition skip_ws :: "pystr \<Rightarrow> pystr" where
  "skip_ws s = dropWhile json_ws s"

definition is_digit :: "codepoint \<Rightarrow> bool" where
  "is_digit c \<longleftrightarrow> 48 \<le> c \<and> c \<le> 57"

definition hexval :: "codepoint \<Rightarrow> nat option" where
  "hexval c =
     (if 48 \<le> c \<and> c \<le> 57 then Some (c - 48)
      else if 97 \<le> c \<and> c \<le> 102 then Some (c - 87)
      else if 65 \<le> c \<and> c \<le> 70 then Some (c - 55)
      else None)"

definition hex4 :: "pystr \<Rightarrow> nat option" where
  "hex4 s =
     (case s of
        a # b # c # d # _ \<Rightarrow>
          (case (hexval a, hexval b, hexval c, hexval d) of
             (Some w, Some x, Some y, Some z) \<Rightarrow> Some (((w * 16 + x) * 16 + y) * 16 + z)
           | _ \<Rightarrow> None)
      | _ \<Rightarrow> None)"

definition unescape :: "pystr \<Rightarrow> (codepoint \<times> pystr) option" where
  \<comment> \<open>the escape after a backslash: the code point it stands for, and the text after it\<close>
  "unescape s =
     (case s of
        [] \<Rightarrow> None
      | e # r \<Rightarrow>
          if e = 117 then
            (case hex4 r of
               None \<Rightarrow> None
             | Some u1 \<Rightarrow>
                 let r1 = drop 4 r in
                 if 0xD800 \<le> u1 \<and> u1 \<le> 0xDBFF \<and> prefix [92, 117] r1 then
                   (case hex4 (drop 2 r1) of
                      None \<Rightarrow> None
                    | Some u2 \<Rightarrow>
                        if 0xDC00 \<le> u2 \<and> u2 \<le> 0xDFFF
                        then Some (0x10000 + (u1 - 0xD800) * 1024 + (u2 - 0xDC00), drop 6 r1)
                        else Some (u1, r1))
                 else Some (u1, r1))
          else if e = 34 then Some (34, r)
          else if e = 92 then Some (92, r)
          else if e = 47 then Some (47, r)
          else if e = 98 then Some (8, r)
          else if e = 102 then Some (12, r)
          else if e = 110 then Some (10, r)
          else if e = 114 then Some (13, r)
          else if e = 116 then Some (9, r)
          else None)"

lemma unescape_shorter: "unescape s = Some (u, r) \<Longrightarrow> length r < length s"
  by (auto simp: unescape_def Let_def split: list.splits option.splits if_splits)

function scanstring :: "pystr \<Rightarrow> (pystr \<times> pystr) option" where
  \<comment> \<open>the text after an opening quote: its content, and the text after the closing quote\<close>
  "scanstring [] = None"
| "scanstring (c # cs) =
     (if c = 34 then Some ([], cs)
      else if c = 92 then
        (case unescape cs of
           None \<Rightarrow> None
         | Some (u, r) \<Rightarrow>
             (case scanstring r of None \<Rightarrow> None | Some (t, r') \<Rightarrow> Some (u # t, r')))
      else if c < 32 then None
      else (case scanstring cs of None \<Rightarrow> None | Some (t, r') \<Rightarrow> Some (c # t, r')))"
  by pat_completeness auto
termination
  by (relation "measure length") (auto dest: unescape_shorter)

definition digits_value :: "pystr \<Rightarrow> nat" where
  "digits_value ds = foldl (\<lambda>a d. a * 10 + (d - 48)) 0 ds"

definition scan_digits :: "pystr \<Rightarrow> (nat \<times> pystr) option" where
  "scan_digits s =
     (case s of
        [] \<Rightarrow> None
      | d # r \<Rightarrow>
          if d = 48 then Some (0, r)
          else if is_digit d then Some (digits_value (takeWhile is_digit s), dropWhile is_digit s)
          else None)"

definition scan_number :: "pystr \<Rightarrow> (int \<times> pystr) option" where
  "scan_number s =
     (case s of
        [] \<Rightarrow> None
      | c # r \<Rightarrow>
          if c = 45 then map_option (\<lambda>(n, t). (- int n, t)) (scan_digits r)
          else map_option (\<lambda>(n, t). (int n, t)) (scan_digits s))"

text \<open>
  The recursive descent. The first argument bounds the number of nested calls. A call
  that returns has consumed more characters than the calls it needed, so a bound above
  the length of the text is as good as any larger one (\<open>json_loads_fuel\<close> below), and
  \<open>json_loads\<close> takes that bound.
\<close>

fun scan_once :: "nat \<Rightarrow> pystr \<Rightarrow> (json \<times> pystr) option"
  and scan_items :: "nat \<Rightarrow> pystr \<Rightarrow> (json list \<times> pystr) option"
  and scan_members :: "nat \<Rightarrow> pystr \<Rightarrow> ((pystr \<times> json) list \<times> pystr) option"
where
  "scan_once 0 s = None"
| "scan_once (Suc n) s =
     (case s of
        [] \<Rightarrow> None
      | c # cs \<Rightarrow>
          if c = 34 then map_option (\<lambda>(t, r). (JStr t, r)) (scanstring cs)
          else if c = 123 then
            (case skip_ws cs of
               [] \<Rightarrow> None
             | d # r \<Rightarrow>
                 if d = 125 then Some (JObj [], r)
                 else map_option (\<lambda>(ps, r'). (JObj (dict_of_pairs ps), r')) (scan_members n (d # r)))
          else if c = 91 then
            (case skip_ws cs of
               [] \<Rightarrow> None
             | d # r \<Rightarrow>
                 if d = 93 then Some (JArr [], r)
                 else map_option (\<lambda>(vs, r'). (JArr vs, r')) (scan_items n (d # r)))
          else if startswith s (str ''null'') then Some (JNull, drop 4 s)
          else if startswith s (str ''true'') then Some (JBool True, drop 4 s)
          else if startswith s (str ''false'') then Some (JBool False, drop 5 s)
          else map_option (\<lambda>(i, r). (JInt i, r)) (scan_number s))"
| "scan_items 0 s = None"
| "scan_items (Suc n) s =
     (case scan_once n s of
        None \<Rightarrow> None
      | Some (v, r) \<Rightarrow>
          (case skip_ws r of
             [] \<Rightarrow> None
           | d # r' \<Rightarrow>
               if d = 93 then Some ([v], r')
               else if d = 44 then
                 map_option (\<lambda>(vs, r''). (v # vs, r'')) (scan_items n (skip_ws r'))
               else None))"
| "scan_members 0 s = None"
| "scan_members (Suc n) s =
     (case s of
        [] \<Rightarrow> None
      | q # s' \<Rightarrow>
          if q \<noteq> 34 then None
          else
            (case scanstring s' of
               None \<Rightarrow> None
             | Some (k, r) \<Rightarrow>
                 (case skip_ws r of
                    [] \<Rightarrow> None
                  | c # r1 \<Rightarrow>
                      if c \<noteq> 58 then None
                      else
                        (case scan_once n (skip_ws r1) of
                           None \<Rightarrow> None
                         | Some (v, r2) \<Rightarrow>
                             (case skip_ws r2 of
                                [] \<Rightarrow> None
                              | d # r3 \<Rightarrow>
                                  if d = 125 then Some ([(k, v)], r3)
                                  else if d = 44 then
                                    map_option (\<lambda>(ps, r4). ((k, v) # ps, r4))
                                      (scan_members n (skip_ws r3))
                                  else None)))))"

definition json_loads :: "pystr \<Rightarrow> json option" where
  "json_loads s =
     (case scan_once (Suc (length s)) (skip_ws s) of
        None \<Rightarrow> None
      | Some (v, r) \<Rightarrow> if skip_ws r = [] then Some v else None)"

text \<open>
  \<open>json.dumps(obj, indent=2)\<close>: texts are escaped to ASCII, items are separated by
  a comma and a line feed, a key from its value by a colon and a space, and every
  nesting level indents by two spaces; empty containers are \<open>[]\<close> and \<open>{}\<close>.
\<close>

definition hex4_repr :: "nat \<Rightarrow> pystr" where
  "hex4_repr n =
     [hexdigit (n div 4096 mod 16), hexdigit (n div 256 mod 16), hexdigit (n div 16 mod 16),
      hexdigit (n mod 16)]"

definition escape_cp :: "codepoint \<Rightarrow> pystr" where
  "escape_cp c =
     (if c = 34 then [92, 34]
      else if c = 92 then [92, 92]
      else if c = 10 then [92, 110]
      else if c = 13 then [92, 114]
      else if c = 9 then [92, 116]
      else if c = 8 then [92, 98]
      else if c = 12 then [92, 102]
      else if 32 \<le> c \<and> c \<le> 126 then [c]
      else if c < 0x10000 then [92, 117] @ hex4_repr c
      else [92, 117] @ hex4_repr (0xD800 + (c - 0x10000) div 1024 mod 1024) @
           [92, 117] @ hex4_repr (0xDC00 + (c - 0x10000) mod 1024))"

definition encode_str :: "pystr \<Rightarrow> pystr" where
  "encode_str s = [34] @ concat (map escape_cp s) @ [34]"

definition newline_indent :: "nat \<Rightarrow> pystr" where
  "newline_indent level = 10 # replicate (2 * level) 32"

fun dumps_at :: "nat \<Rightarrow> json \<Rightarrow> pystr" where
  "dumps_at level JNull = str ''null''"
| "dumps_at level (JBool b) = (if b then str ''true'' else str ''false'')"
| "dumps_at level (JInt i) = int_repr i"
| "dumps_at level (JStr s) = encode_str s"
| "dumps_at level (JArr vs) =
     (if vs = [] then str ''[]''
      else [91] @ newline_indent (Suc level) @
           join ([44] @ newline_indent (Suc level)) (map (dumps_at (Suc level)) vs) @
           newline_indent level @ [93])"
| "dumps_at level (JObj d) =
     (if d = [] then str ''{}''
      else [123] @ newline_indent (Suc level) @
           join ([44] @ newline_indent (Suc level))
             (map (\<lambda>(k, v). encode_str k @ [58, 32] @ dumps_at (Suc level) v) d) @
           newline_indent level @ [125])"

definition json_dumps :: "json \<Rightarrow> pystr" where
  "json_dumps v = dumps_at 0 v"

section \<open>Helper functions of the application\<close>

subsection \<open>\<open>get_risk_badge\<close>\<close>





subsection \<open>The evaluation prompt\<close>

definition PROMPT_LINES :: "string list" where
  \<comment> \<open>the lines of the template\<close>
  \<open>PROMPT_LINES =
     [''You are an expert AI governance analyst. Evaluate the following AI use case against regulatory frameworks and risk criteria.'',
      '''',
      ''## USE CASE DETAILS:'',
      ''Name: {name}'',
      ''Department: {department}'',
      ''Description: {description}'',
      ''AI Techniques: {ai_techniques}'',
      ''Target Markets: {markets}'',
      ''Data Types: {data_types}'',
      ''Deployment Stage: {stage}'',
      '''',
      ''## EVALUATE AGAINST:'',
      ''1. **Regulatory Risk**: EU AI Act, Colorado AI Act, NYC Local Law 144, GDPR implications'',
      ''2. **Bias & Fairness Risk**: Potential for discrimination, affected groups, historical bias in domain'',
      ''3. **Data Privacy Risk**: PII handling, consent, data retention, cross-border transfers'',
      ''4. **Transparency Risk**: Explainability requirements, user notification, right to human review'',
      '''',
      ''## RETURN JSON ONLY (no markdown, no explanation outside JSON):'',
      ''{{'',
      ''    "overall_score": <0-100 integer>,'',
      ''    "risk_level": "<HIGH|MEDIUM|LOW>",'',
      ''    "risks": {{'',
      ''        "regulatory": {{'',
      ''            "level": "<HIGH|MEDIUM|LOW>",'',
      ''            "score": <0-100>,'',
      ''            "summary": "<2-3 sentence explanation>",'',
      ''            "applicable_regulations": ["<list of specific regulations that apply>"]'',
      ''        }},'',
      ''        "bias": {{'',
      ''            "level": "<HIGH|MEDIUM|LOW>",'',
      ''            "score": <0-100>,'',
      ''            "summary": "<2-3 sentence explanation>",'',
      ''            "affected_groups": ["<list of potentially affected groups>"]'',
      ''        }},'',
      ''        "privacy": {{'',
      ''            "level": "<HIGH|MEDIUM|LOW>",'',
      ''            "score": <0-100>,'',
      ''            "summary": "<2-3 sentence explanation>",'',
      ''            "data_concerns": ["<list of specific data concerns>"]'',
      ''        }},'',
      ''        "transparency": {{'',
      ''            "level": "<HIGH|MEDIUM|LOW>",'',
      ''            "score": <0-100>,'',
      ''            "summary": "<2-3 sentence explanation>",'',
      ''            "requirements": ["<list of transparency requirements>"]'',
      ''        }}'',
      ''    }},'',
      ''    "recommended_actions": ['',
      ''        {{'',
      ''            "priority": 1,'',
      ''            "action": "<specific action to take>",'',
      ''            "regulation": "<relevant regulation or best practice>",'',
      ''            "owner": "<suggested responsible party>"'',
      ''        }}'',
      ''    ],'',
      ''    "executive_summary": "<3-4 sentence summary suitable for leadership>"'',
      ''}}'']\<close>

definition EVALUATION_PROMPT :: pystr where
  \<comment> \<open>the template: every line ends with a line feed\<close>
  "EVALUATION_PROMPT = concat (map (\<lambda>l. str l @ [10]) PROMPT_LINES)"

text \<open>
  \<open>template.format(**kw)\<close> for a template whose replacement fields are plain names:
  \<open>{{\<close> and \<open>}}\<close> stand for a brace, \<open>{name}\<close> for the value of \<open>name\<close>; a
  brace on its own is a ValueError, an unknown name a KeyError. The values are texts and
  are inserted as they are.
\<close>

fun format_from :: "(pystr \<Rightarrow> pystr option) \<Rightarrow> pystr \<Rightarrow> py_error + pystr"
  and format_field :: "(pystr \<Rightarrow> pystr option) \<Rightarrow> pystr \<Rightarrow> pystr \<Rightarrow> py_error + pystr"
where
  "format_from kw [] = Inr []"
| "format_from kw (c # cs) =
     (if c = 123 then
        (case cs of
           [] \<Rightarrow> Inl ValueError
         | d # ds \<Rightarrow>
             if d = 123 then bind (format_from kw ds) (\<lambda>r. Inr (123 # r))
             else format_field kw [] cs)
      else if c = 125 then
        (case cs of
           [] \<Rightarrow> Inl ValueError
         | d # ds \<Rightarrow>
             if d = 125 then bind (format_from kw ds) (\<lambda>r. Inr (125 # r))
             else Inl ValueError)
      else bind (format_from kw cs) (\<lambda>r. Inr (c # r)))"
| "format_field kw field [] = Inl ValueError"
| "format_field kw field (c # cs) =
     (if c = 125 then
        (case kw (rev field) of
           None \<Rightarrow> Inl KeyError
         | Some v \<Rightarrow> bind (format_from kw cs) (\<lambda>r. Inr (v @ r)))
      else format_field kw (c # field) cs)"

record use_case =
  name :: pystr
  department :: pystr
  ai_techniques :: pystr
  stage :: pystr
  markets :: "pystr list"
  data_types :: "pystr list"
  description :: pystr

definition prompt_fields :: "use_case \<Rightarrow> pystr \<Rightarrow> pystr option" where
  \<comment> \<open>the keyword arguments of the call of \<open>format\<close>\<close>
  "prompt_fields use_case_data =
     map_of
       [(str ''name'', name use_case_data),
        (str ''department'', department use_case_data),
        (str ''description'', description use_case_data),
        (str ''ai_techniques'', ai_techniques use_case_data),
        (str ''markets'', join (str '', '') (markets use_case_data)),
        (str ''data_types'', join (str '', '') (data_types use_case_data)),
        (str ''stage'', stage use_case_data)]"

definition build_prompt :: "use_case \<Rightarrow> py_error + pystr" where
  \<comment> \<open>\<open>EVALUATION_PROMPT.format(name=..., ...)\<close> in \<open>evaluate_use_case\<close>\<close>
  "build_prompt use_case_data = format_from (prompt_fields use_case_data) EVALUATION_PROMPT"

subsection \<open>\<open>evaluate_use_case\<close>\<close>

definition FENCE :: pystr where
  "FENCE = str ''```''"

definition clean_response :: "pystr \<Rightarrow> py_error + pystr" where
  \<comment> \<open>the clean-up of the response text: strip, take what follows a leading fence up to
     the next fence, drop a leading \<open>json\<close>, strip again\<close>
  "clean_response content =
     (let result_text = strip content in
      bind
        (if startswith result_text FENCE then
           (case split FENCE result_text of
              _ # piece # _ \<Rightarrow>
                Inr (if startswith piece (str ''json'') then drop 4 piece else piece)
            | _ \<Rightarrow> Inl IndexError)
         else Inr result_text)
        (\<lambda>result_text. Inr (strip result_text)))"


datatype failure = ParseFailed | CallFailed

definition parse_response :: "pystr \<Rightarrow> failure + json" where
  "parse_response content =
     (case clean_response content of
        Inl e \<Rightarrow> Inl CallFailed
      | Inr result_text \<Rightarrow>
          (case json_loads result_text of
             None \<Rightarrow> Inl ParseFailed
           | Some v \<Rightarrow> Inr v))"


subsection \<open>Operations on decoded values\<close>

text \<open>
  What the program does with the values of a decoded response, with the exception each
  operation raises on a value of the wrong type: \<open>v.get(key, default)\<close> and
  \<open>v.items()\<close> need a dictionary, \<open>v[key]\<close> a dictionary that has the key,
  \<open>v[:n]\<close> a text or a list, and a key looked up in a dictionary must be hashable.
\<close>

definition dict_get :: "json \<Rightarrow> pystr \<Rightarrow> json \<Rightarrow> py_error + json" where
  "dict_get v key fallback =
     (case v of
        JObj d \<Rightarrow> Inr (case map_of d key of None \<Rightarrow> fallback | Some x \<Rightarrow> x)
      | _ \<Rightarrow> Inl AttributeError)"

definition subscript :: "json \<Rightarrow> pystr \<Rightarrow> py_error + json" where
  "subscript v key =
     (case v of
        JObj d \<Rightarrow> (case map_of d key of None \<Rightarrow> Inl KeyError | Some x \<Rightarrow> Inr x)
      | _ \<Rightarrow> Inl TypeError)"

definition items :: "json \<Rightarrow> py_error + (pystr \<times> json) list" where
  "items v = (case v of JObj d \<Rightarrow> Inr d | _ \<Rightarrow> Inl AttributeError)"

definition slice_to :: "nat \<Rightarrow> json \<Rightarrow> py_error + json" where
  "slice_to n v =
     (case v of
        JStr s \<Rightarrow> Inr (JStr (take n s))
      | JArr xs \<Rightarrow> Inr (JArr (take n xs))
      | _ \<Rightarrow> Inl TypeError)"

definition elements :: "json \<Rightarrow> json list" where
  \<comment> \<open>what a loop over a text or a list goes through\<close>
  "elements v = (case v of JStr s \<Rightarrow> map (\<lambda>c. JStr [c]) s | JArr xs \<Rightarrow> xs | _ \<Rightarrow> [])"


text \<open>
  \<open>str(v)\<close>, which an f-string applies: a text is itself, any other value its
  \<open>repr\<close>. In the \<open>repr\<close> of a text the code points above ASCII are kept as they are.
\<close>

definition repr_cp :: "codepoint \<Rightarrow> codepoint \<Rightarrow> pystr" where
  "repr_cp quote c =
     (if c = quote \<or> c = 92 then [92, c]
      else if c = 9 then [92, 116]
      else if c = 10 then [92, 110]
      else if c = 13 then [92, 114]
      else if c < 32 \<or> c = 127 then [92, 120, hexdigit (c div 16), hexdigit (c mod 16)]
      else [c])"

definition repr_str :: "pystr \<Rightarrow> pystr" where
  "repr_str s =
     (let quote = (if 39 \<in> set s \<and> 34 \<notin> set s then 34 else 39)
      in [quote] @ concat (map (repr_cp quote) s) @ [quote])"

fun py_repr :: "json \<Rightarrow> pystr" where
  "py_repr JNull = str ''None''"
| "py_repr (JBool b) = (if b then str ''True'' else str ''False'')"
| "py_repr (JInt i) = int_repr i"
| "py_repr (JStr s) = repr_str s"
| "py_repr (JArr vs) = [91] @ join (str '', '') (map py_repr vs) @ [93]"
| "py_repr (JObj d) =
     [123] @ join (str '', '') (map (\<lambda>(k, v). repr_str k @ str '': '' @ py_repr v) d) @ [125]"

definition py_str :: "json \<Rightarrow> pystr" where
  "py_str v = (case v of JStr s \<Rightarrow> s | _ \<Rightarrow> py_repr v)"

subsection \<open>\<open>generate_pdf_report\<close>\<close>

text \<open>
  The report is the story: the list of flowables that \<open>generate_pdf_report\<close> builds and
  hands to ReportLab. A paragraph has its content and the name of its style, a table its
  rows, its column widths and its style commands. Lengths are fractions of an inch, given
  by numerator and denominator. What ReportLab does with the story (the markup it reads in
  a paragraph, the layout, the pages, the bytes of the document) is outside the embedding.
\<close>

datatype style = Title | Subtitle | Heading | Body | Label | Footer

datatype style_arg = Font pystr | Number int | Ratio int int | HexColor pystr | White | Align pystr

datatype style_cmd = Cmd pystr "int \<times> int" "int \<times> int" "style_arg list"

datatype flowable =
    Paragraph json style
  | Spacer nat nat
  | HRFlowable nat pystr
  | Table "json list list" "(int \<times> int) list" "style_cmd list"

definition COLORS :: "(pystr \<times> pystr) list" where
  "COLORS = [(str ''HIGH'', str ''#DC2626''), (str ''MEDIUM'', str ''#D97706''),
             (str ''LOW'', str ''#059669'')]"

definition level_color :: "json \<Rightarrow> py_error + pystr" where
  \<comment> \<open>\<open>{'HIGH': ..., 'MEDIUM': ..., 'LOW': ...}.get(level, '#64748B')\<close>\<close>
  "level_color level =
     (case level of
        JStr s \<Rightarrow> Inr (case map_of COLORS s of None \<Rightarrow> str ''#64748B'' | Some c \<Rightarrow> c)
      | JArr _ \<Rightarrow> Inl TypeError
      | JObj _ \<Rightarrow> Inl TypeError
      | _ \<Rightarrow> Inr (str ''#64748B''))"

definition report_header :: "pystr \<Rightarrow> flowable list" where
  "report_header now =
     [Paragraph (JStr ([0x1F50D] @ str '' AIGovLens Governance Report'')) Title,
      Paragraph (JStr (str ''Generated: '' @ now)) Subtitle,
      HRFlowable 2 (str ''#3B82F6''),
      Spacer 1 20]"

definition report_overview :: "use_case \<Rightarrow> flowable list" where
  "report_overview use_case_data =
     [Paragraph (JStr ([0x1F4CB] @ str '' Use Case Overview'')) Heading,
      Table
        [[JStr (str ''Use Case Name:''), JStr (name use_case_data)],
         [JStr (str ''Department:''), JStr (department use_case_data)],
         [JStr (str ''AI Techniques:''), JStr (ai_techniques use_case_data)],
         [JStr (str ''Deployment Stage:''), JStr (stage use_case_data)],
         [JStr (str ''Target Markets:''), JStr (join (str '', '') (markets use_case_data))],
         [JStr (str ''Data Types:''), JStr (join (str '', '') (data_types use_case_data))]]
        [(3, 2), (5, 1)]
        [Cmd (str ''FONTNAME'') (0, 0) (0, - 1) [Font (str ''Helvetica-Bold'')],
         Cmd (str ''FONTSIZE'') (0, 0) (- 1, - 1) [Number 10],
         Cmd (str ''TEXTCOLOR'') (0, 0) (0, - 1) [HexColor (str ''#64748B'')],
         Cmd (str ''TEXTCOLOR'') (1, 0) (1, - 1) [HexColor (str ''#1E293B'')],
         Cmd (str ''BOTTOMPADDING'') (0, 0) (- 1, - 1) [Number 8],
         Cmd (str ''VALIGN'') (0, 0) (- 1, - 1) [Align (str ''TOP'')]],
      Spacer 1 10,
      Paragraph (JStr (str ''Description:'')) Label,
      Paragraph (JStr (description use_case_data)) Body]"

definition report_assessment :: "json \<Rightarrow> py_error + flowable list" where
  "report_assessment evaluation_result =
     bind (subscript evaluation_result (str ''risk_level'')) (\<lambda>risk_level.
     bind (level_color risk_level) (\<lambda>risk_color.
     bind (subscript evaluation_result (str ''overall_score'')) (\<lambda>overall_score.
     bind (dict_get evaluation_result (str ''executive_summary'') (JStr [])) (\<lambda>summary.
     Inr
       [Paragraph (JStr ([0x1F4CA] @ str '' Overall Assessment'')) Heading,
        Table
          [[JStr (str ''Overall Score:''), JStr (py_str overall_score @ str ''/100'')],
           [JStr (str ''Risk Level:''), risk_level]]
          [(3, 2), (5, 1)]
          [Cmd (str ''FONTNAME'') (0, 0) (- 1, - 1) [Font (str ''Helvetica-Bold'')],
           Cmd (str ''FONTSIZE'') (0, 0) (- 1, - 1) [Number 12],
           Cmd (str ''TEXTCOLOR'') (0, 0) (0, - 1) [HexColor (str ''#64748B'')],
           Cmd (str ''TEXTCOLOR'') (1, 1) (1, 1) [HexColor risk_color],
           Cmd (str ''BOTTOMPADDING'') (0, 0) (- 1, - 1) [Number 8]],
        Spacer 1 10,
        Paragraph summary Body]))))"

definition risk_heading :: "pystr \<Rightarrow> pystr \<Rightarrow> json \<Rightarrow> pystr" where
  \<comment> \<open>the f-string of a category's heading line\<close>
  "risk_heading risk_title color level =
     str ''<b>'' @ risk_title @ str '' Risk:</b> <font color='' @ [39] @ color @ [39] @
     str ''>'' @ py_str level @ str ''</font>''"

definition risk_section :: "pystr \<times> json \<Rightarrow> py_error + flowable list" where
  \<comment> \<open>the body of the loop over \<open>risks.items()\<close>\<close>
  "risk_section item =
     (case item of (risk_name, risk_data) \<Rightarrow>
        let risk_title = title (replace_cp 95 32 risk_name) in
        bind (dict_get risk_data (str ''level'') (JStr (str ''UNKNOWN''))) (\<lambda>level.
        bind (level_color level) (\<lambda>color.
        bind (dict_get risk_data (str ''summary'') (JStr [])) (\<lambda>summary.
        Inr [Paragraph (JStr (risk_heading risk_title color level)) Body,
             Paragraph summary Body,
             Spacer 1 8]))))"

fun risk_sections :: "(pystr \<times> json) list \<Rightarrow> py_error + flowable list" where
  "risk_sections [] = Inr []"
| "risk_sections (item # rest) =
     bind (risk_section item) (\<lambda>fs. bind (risk_sections rest) (\<lambda>gs. Inr (fs @ gs)))"

definition report_risks :: "json \<Rightarrow> py_error + flowable list" where
  "report_risks evaluation_result =
     bind (dict_get evaluation_result (str ''risks'') (JObj [])) (\<lambda>risks.
     bind (items risks) (\<lambda>risk_items.
     bind (risk_sections risk_items) (\<lambda>fs.
     Inr (Paragraph (JStr ([0x26A0, 0xFE0F] @ str '' Risk Assessment'')) Heading # fs))))"

definition action_row :: "json \<Rightarrow> py_error + json list" where
  "action_row action =
     bind (dict_get action (str ''priority'') (JStr (str ''-''))) (\<lambda>priority.
     bind (dict_get action (str ''action'') (JStr [])) (\<lambda>a.
     bind (slice_to 60 a) (\<lambda>a60.
     bind (dict_get action (str ''regulation'') (JStr [])) (\<lambda>r.
     bind (slice_to 30 r) (\<lambda>r30.
     bind (dict_get action (str ''owner'') (JStr [])) (\<lambda>owner.
     Inr [JStr (str ''P'' @ py_str priority), a60, r30, owner]))))))"

fun action_rows :: "json list \<Rightarrow> py_error + json list list" where
  "action_rows [] = Inr []"
| "action_rows (action # rest) =
     bind (action_row action) (\<lambda>row. bind (action_rows rest) (\<lambda>rows. Inr (row # rows)))"

definition ACTION_HEADER :: "json list" where
  "ACTION_HEADER =
     [JStr (str ''Priority''), JStr (str ''Action''), JStr (str ''Regulation''),
      JStr (str ''Owner'')]"

definition ACTION_STYLE :: "style_cmd list" where
  "ACTION_STYLE =
     [Cmd (str ''BACKGROUND'') (0, 0) (- 1, 0) [HexColor (str ''#3B82F6'')],
      Cmd (str ''TEXTCOLOR'') (0, 0) (- 1, 0) [White],
      Cmd (str ''FONTNAME'') (0, 0) (- 1, 0) [Font (str ''Helvetica-Bold'')],
      Cmd (str ''FONTSIZE'') (0, 0) (- 1, - 1) [Number 9],
      Cmd (str ''BOTTOMPADDING'') (0, 0) (- 1, - 1) [Number 8],
      Cmd (str ''TOPPADDING'') (0, 0) (- 1, - 1) [Number 8],
      Cmd (str ''GRID'') (0, 0) (- 1, - 1) [Ratio 1 2, HexColor (str ''#E2E8F0'')],
      Cmd (str ''VALIGN'') (0, 0) (- 1, - 1) [Align (str ''TOP'')]]"

definition report_actions :: "json \<Rightarrow> py_error + flowable list" where
  "report_actions evaluation_result =
     bind (dict_get evaluation_result (str ''recommended_actions'') (JArr [])) (\<lambda>actions.
     bind
       (if truthy actions then
          bind (slice_to 6 actions) (\<lambda>first.
          bind (action_rows (elements first)) (\<lambda>rows.
          Inr [Table (ACTION_HEADER # rows) [(6, 10), (3, 1), (3, 2), (14, 10)] ACTION_STYLE]))
        else Inr [])
       (\<lambda>table.
     Inr (Paragraph (JStr ([0x2705] @ str '' Recommended Actions'')) Heading # table)))"

definition report_footer :: "flowable list" where
  "report_footer =
     [Spacer 1 30,
      HRFlowable 1 (str ''#E2E8F0''),
      Paragraph (JStr (str ''Generated by AIGovLens - Open Source AI Governance Toolkit'')) Footer,
      Paragraph (JStr (str ''github.com/parul-khanna/aigovlens | MIT License'')) Footer,
      Paragraph
        (JStr ([0x26A0, 0xFE0F] @
           str '' This report is for informational purposes only and does not constitute legal advice.''))
        Footer]"

definition generate_pdf_report :: "pystr \<Rightarrow> use_case \<Rightarrow> json \<Rightarrow> py_error + flowable list" where
  \<comment> \<open>the first argument is the formatted time of the call\<close>
  "generate_pdf_report now use_case_data evaluation_result =
     bind (report_assessment evaluation_result) (\<lambda>assessment.
     bind (report_risks evaluation_result) (\<lambda>risks.
     bind (report_actions evaluation_result) (\<lambda>actions.
     Inr (report_header now @ report_overview use_case_data @ assessment @ risks @ actions @
          report_footer))))"

subsection \<open>The main view\<close>

text \<open>
  The session holds the evaluation and the use case of the last successful evaluation.
  A click on the evaluate button checks the form, builds the use case, calls
  \<open>evaluate_use_case\<close> and stores the pair only when the result is truthy. The results
  tab works on the stored pair when both are there: it shows the evaluation, with a badge
  for the level of each category, and builds the report and the export from the pair.
\<close>

record session =
  evaluation_result :: "json option"
  use_case_data :: "use_case option"






definition use_case_dict :: "use_case \<Rightarrow> json" where
  \<comment> \<open>the dictionary \<open>use_case_data\<close> as the main view builds it\<close>
  "use_case_dict u =
     JObj
       [(str ''name'', JStr (name u)),
        (str ''department'', JStr (department u)),
        (str ''ai_techniques'', JStr (ai_techniques u)),
        (str ''stage'', JStr (stage u)),
        (str ''markets'', JArr (map JStr (markets u))),
        (str ''data_types'', JArr (map JStr (data_types u))),
        (str ''description'', JStr (description u))]"

definition export_bundle :: "use_case \<Rightarrow> json \<Rightarrow> pystr \<Rightarrow> json" where
  "export_bundle use_case result generated_at =
     JObj
       [(str ''use_case'', use_case_dict use_case),
        (str ''evaluation'', result),
        (str ''generated_at'', JStr generated_at)]"

definition export_json :: "use_case \<Rightarrow> json \<Rightarrow> pystr \<Rightarrow> pystr" where
  \<comment> \<open>\<open>json.dumps({...}, indent=2)\<close>; the last argument is \<open>datetime.now().isoformat()\<close>\<close>
  "export_json use_case result generated_at =
     json_dumps (export_bundle use_case result generated_at)"

subsection \<open>Well-typed parts of an evaluation\<close>




subsection \<open>Well-formed values\<close>

text \<open>
  The values the export is about: a text is a sequence of Unicode scalar values (any code
  point but the surrogates), as the texts of a form and of a decoded response are,
  and a dictionary holds each key once.
\<close>

definition valid_cp :: "codepoint \<Rightarrow> bool" where
  "valid_cp c \<longleftrightarrow> c < 0xD800 \<or> (0xE000 \<le> c \<and> c < 0x110000)"

definition valid_text :: "pystr \<Rightarrow> bool" where
  "valid_text s = list_all valid_cp s"

fun wf_json :: "json \<Rightarrow> bool" where
  "wf_json (JStr s) = valid_text s"
| "wf_json (JArr vs) = list_all wf_json vs"
| "wf_json (JObj d) = (distinct (map fst d) \<and> list_all (\<lambda>(k, v). valid_text k \<and> wf_json v) d)"
| "wf_json _ = True"

definition valid_use_case :: "use_case \<Rightarrow> bool" where
  "valid_use_case u \<longleftrightarrow>
     valid_text (name u) \<and> valid_text (department u) \<and> valid_text (ai_techniques u) \<and>
     valid_text (stage u) \<and> list_all valid_text (markets u) \<and>
     list_all valid_text (data_types u) \<and> valid_text (description u)"

subsection \<open>The text around an encoded value\<close>

text \<open>
  Notions for the export: the text after a number must not go on with a digit, an encoded
  value starts with a character that is not whitespace, and the encoder separates the
  items of a container by a comma and the indentation of the level.
\<close>

definition number_stops :: "pystr \<Rightarrow> bool" where
  "number_stops rest \<longleftrightarrow> rest = [] \<or> \<not> is_digit (hd rest)"

definition starts_value :: "pystr \<Rightarrow> bool" where
  "starts_value s \<longleftrightarrow> (\<exists>c cs. s = c # cs \<and> (c \<in> {34, 123, 91, 110, 116, 102, 45} \<or> is_digit c))"

definition item_sep :: "nat \<Rightarrow> pystr" where
  "item_sep level = [44] @ newline_indent (Suc level)"

definition member_text :: "nat \<Rightarrow> pystr \<times> json \<Rightarrow> pystr" where
  "member_text level = (\<lambda>(k, v). encode_str k @ [58, 32] @ dumps_at (Suc level) v)"

section \<open>Properties\<close>

subsection \<open>Errors\<close>

lemma bind_Inr [simp]: "bind (Inr x) f = f x"
  by (simp add: bind_def)

lemma bind_Inl [simp]: "bind (Inl e) f = Inl e"
  by (simp add: bind_def)

lemma bind_eq_Inr: "bind m f = Inr y \<longleftrightarrow> (\<exists>x. m = Inr x \<and> f x = Inr y)"
  by (cases m) simp_all


subsection \<open>Text functions\<close>

lemma strip_stripped: "stripped t \<Longrightarrow> strip t = t"
proof (cases t)
  case Nil
  then show ?thesis by (simp add: strip_def)
next
  case (Cons c cs)
  assume "stripped t"
  with Cons have h: "\<not> is_space (hd t)" and l: "\<not> is_space (last t)"
    by (auto simp: stripped_def)
  from Cons h have a: "dropWhile is_space t = t" by simp
  from Cons have "rev t \<noteq> []" by simp
  then obtain x xs where x: "rev t = x # xs" by (cases "rev t") auto
  have "hd (rev t) = last t" by (rule hd_rev)
  with x l have "\<not> is_space x" by simp
  with x have "dropWhile is_space (rev t) = rev t" by simp
  with a show ?thesis by (simp add: strip_def)
qed

lemma stripped_strip: "stripped (strip s)"
proof -
  define u where "u = dropWhile is_space s"
  define w where "w = dropWhile is_space (rev u)"
  have s: "strip s = rev w" by (simp add: strip_def u_def w_def)
  show ?thesis
  proof (cases "w = []")
    case True
    then show ?thesis by (simp add: s stripped_def)
  next
    case False
    then have hw: "\<not> is_space (hd w)" unfolding w_def by (rule hd_dropWhile)
    have "suffix w (rev u)" unfolding w_def by (rule suffix_dropWhile)
    then obtain p where p: "rev u = p @ w" by (auto simp: suffix_def)
    with False have "last w = last (rev u)" by simp
    also have "\<dots> = hd u" by (rule last_rev)
    finally have lw: "last w = hd u" .
    have "u \<noteq> []" using p False by auto
    then have "\<not> is_space (hd u)" unfolding u_def by (rule hd_dropWhile)
    with lw hw False show ?thesis by (simp add: s stripped_def hd_rev last_rev)
  qed
qed

lemma strip_idem: "strip (strip s) = strip s"
  by (rule strip_stripped [OF stripped_strip])

lemma sublist_strip: "sublist (strip s) s"
proof -
  have "suffix (dropWhile is_space (rev (dropWhile is_space s))) (rev (dropWhile is_space s))"
    by (rule suffix_dropWhile)
  then have "prefix (strip s) (dropWhile is_space s)"
    by (simp add: strip_def suffix_to_prefix)
  moreover have "suffix (dropWhile is_space s) s" by (rule suffix_dropWhile)
  ultimately show ?thesis
    by (meson prefix_imp_sublist suffix_imp_sublist sublist_order.order.trans)
qed

lemma split_nonempty: "split sep s \<noteq> []"
  by (induction sep s rule: split.induct) (auto split: list.splits)

lemma split_hd_prefix: "prefix (hd (split sep s)) s"
  by (induction sep s rule: split.induct) (auto split: list.splits)

lemma split_pieces_free:
  "sep \<noteq> [] \<Longrightarrow> p \<in> set (split sep s) \<Longrightarrow> \<not> sublist sep p"
proof (induction sep s arbitrary: p rule: split.induct)
  case (1 sep)
  then show ?case by simp
next
  case (2 sep c cs)
  show ?case
  proof (cases "prefix sep (c # cs)")
    case True
    with "2.prems" have "p = [] \<or> p \<in> set (split sep (drop (length sep - 1) cs))" by simp
    then show ?thesis
    proof
      assume "p = []" with "2.prems" show ?thesis by simp
    next
      assume "p \<in> set (split sep (drop (length sep - 1) cs))"
      with "2.IH"(1) "2.prems"(1) True show ?thesis by simp
    qed
  next
    case False
    obtain q qs where q: "split sep cs = q # qs"
      using split_nonempty [of sep cs] by (cases "split sep cs") auto
    with False "2.prems" have "p = c # q \<or> p \<in> set qs" by simp
    then show ?thesis
    proof
      assume pc: "p = c # q"
      have "prefix q cs" using split_hd_prefix [of sep cs] q by simp
      then have "prefix (c # q) (c # cs)" by simp
      then have np: "\<not> prefix sep (c # q)" using False by (meson prefix_order.trans)
      have "\<not> sublist sep q" using "2.IH"(2) False "2.prems"(1) q by simp
      with np pc "2.prems"(1) show ?thesis by (simp add: sublist_Cons_right)
    next
      assume "p \<in> set qs"
      with "2.IH"(2) False "2.prems"(1) q show ?thesis by simp
    qed
  qed
qed

subsection \<open>The decoder\<close>

text \<open>
  The bound of the recursive descent does not show in \<open>json_loads\<close>: a call of the
  scanner that returns a value has consumed at least one character, and it returns the
  same with every bound that is at least the number of characters it consumed.
\<close>

lemma length_skip_ws: "length (skip_ws s) \<le> length s"
  by (simp add: skip_ws_def length_dropWhile_le)

lemma scanstring_shorter: "scanstring s = Some (t, r) \<Longrightarrow> length r < length s"
proof (induction s arbitrary: t r rule: scanstring.induct)
  case 1
  then show ?case by simp
next
  case (2 c cs)
  show ?case
  proof (cases "c = 34")
    case True
    with "2.prems" show ?thesis by simp
  next
    case n34: False
    show ?thesis
    proof (cases "c = 92")
      case True
      with n34 "2.prems" obtain u r1 t1 where
        u: "unescape cs = Some (u, r1)" and s: "scanstring r1 = Some (t1, r)"
        by (auto split: option.splits)
      from "2.IH"(1) [OF n34 True u refl s] have "length r < length r1" .
      moreover from u have "length r1 < length cs" by (rule unescape_shorter)
      ultimately show ?thesis by simp
    next
      case False
      with n34 "2.prems" obtain t1 where c: "\<not> c < 32" and s: "scanstring cs = Some (t1, r)"
        by (auto split: option.splits if_splits)
      from "2.IH"(2) [OF n34 False c s] show ?thesis by simp
    qed
  qed
qed

lemma scan_digits_shorter: "scan_digits s = Some (n, r) \<Longrightarrow> length r < length s"
proof -
  assume a: "scan_digits s = Some (n, r)"
  then obtain d ds where s: "s = d # ds" by (cases s) (auto simp: scan_digits_def)
  show ?thesis
  proof (cases "d = 48")
    case True
    with a s show ?thesis by (auto simp: scan_digits_def)
  next
    case False
    with a s have "is_digit d" and "r = dropWhile is_digit ds"
      by (auto simp: scan_digits_def split: if_splits)
    then have "length r \<le> length ds" by (simp add: length_dropWhile_le)
    with s show ?thesis by simp
  qed
qed

lemma scan_number_shorter: "scan_number s = Some (i, r) \<Longrightarrow> length r < length s"
  by (cases s) (auto simp: scan_number_def split: if_splits dest!: scan_digits_shorter)

lemma pos_fuel: "length r < length s \<Longrightarrow> length s - length r \<le> g \<Longrightarrow> \<exists>g'. g = Suc g'"
  by (cases g) auto

lemma scan_fuel:
  "(\<forall>s v r. scan_once f s = Some (v, r) \<longrightarrow>
      length r < length s \<and> (\<forall>g. length s - length r \<le> g \<longrightarrow> scan_once g s = Some (v, r)))
   \<and> (\<forall>s vs r. scan_items f s = Some (vs, r) \<longrightarrow>
      length r < length s \<and> (\<forall>g. length s - length r \<le> g \<longrightarrow> scan_items g s = Some (vs, r)))
   \<and> (\<forall>s ps r. scan_members f s = Some (ps, r) \<longrightarrow>
      length r < length s \<and> (\<forall>g. length s - length r \<le> g \<longrightarrow> scan_members g s = Some (ps, r)))"
proof (induction f)
  case 0
  show ?case by simp
next
  case (Suc n)
  have once: "length r < length s \<and> (\<forall>g. length s - length r \<le> g \<longrightarrow> scan_once g s = Some (v, r))"
    if "scan_once n s = Some (v, r)" for s v r using Suc that by blast
  have items: "length r < length s \<and> (\<forall>g. length s - length r \<le> g \<longrightarrow> scan_items g s = Some (vs, r))"
    if "scan_items n s = Some (vs, r)" for s vs r using Suc that by blast
  have members: "length r < length s \<and> (\<forall>g. length s - length r \<le> g \<longrightarrow> scan_members g s = Some (ps, r))"
    if "scan_members n s = Some (ps, r)" for s ps r using Suc that by blast
  have A: "length r < length s \<and> (\<forall>g. length s - length r \<le> g \<longrightarrow> scan_once g s = Some (v, r))"
    if a: "scan_once (Suc n) s = Some (v, r)" for s v r
  proof -
    from a obtain c cs where s: "s = c # cs" by (cases s) auto
    consider (quoted) "c = 34" | (obj) "c \<noteq> 34" "c = 123" | (arr) "c \<noteq> 34" "c \<noteq> 123" "c = 91"
      | (other) "c \<noteq> 34" "c \<noteq> 123" "c \<noteq> 91" by blast
    then show ?thesis
    proof cases
      case quoted
      with a s obtain t where t: "scanstring cs = Some (t, r)" "v = JStr t" by auto
      then have l: "length r < length s" using scanstring_shorter s by fastforce
      have "scan_once g s = Some (v, r)" if "length s - length r \<le> g" for g
      proof -
        from pos_fuel [OF l that] obtain g' where "g = Suc g'" by blast
        with t quoted s show ?thesis by simp
      qed
      with l show ?thesis by blast
    next
      case obj
      with a s obtain d r0 where d: "skip_ws cs = d # r0" by (cases "skip_ws cs") auto
      have le: "length (d # r0) \<le> length cs" using length_skip_ws [of cs] d by simp
      show ?thesis
      proof (cases "d = 125")
        case True
        with a s obj d have v: "v = JObj []" "r = r0" by auto
        with le s have l: "length r < length s" by simp
        have "scan_once g s = Some (v, r)" if "length s - length r \<le> g" for g
        proof -
          from pos_fuel [OF l that] obtain g' where "g = Suc g'" by blast
          with v obj s d True show ?thesis by simp
        qed
        with l show ?thesis by blast
      next
        case False
        with a s obj d obtain ps where ps: "scan_members n (d # r0) = Some (ps, r)"
          "v = JObj (dict_of_pairs ps)" by auto
        from members [OF ps(1)] have m: "length r < length (d # r0)"
          "\<And>g. length (d # r0) - length r \<le> g \<Longrightarrow> scan_members g (d # r0) = Some (ps, r)"
          by blast+
        from m(1) le s have l: "length r < length s" by simp
        have "scan_once g s = Some (v, r)" if "length s - length r \<le> g" for g
        proof -
          from pos_fuel [OF l that] obtain g' where g: "g = Suc g'" by blast
          with that s le have "length (d # r0) - length r \<le> g'" by simp
          from m(2) [OF this] ps(2) obj s d False g show ?thesis by simp
        qed
        with l show ?thesis by blast
      qed
    next
      case arr
      with a s obtain d r0 where d: "skip_ws cs = d # r0" by (cases "skip_ws cs") auto
      have le: "length (d # r0) \<le> length cs" using length_skip_ws [of cs] d by simp
      show ?thesis
      proof (cases "d = 93")
        case True
        with a s arr d have v: "v = JArr []" "r = r0" by auto
        with le s have l: "length r < length s" by simp
        have "scan_once g s = Some (v, r)" if "length s - length r \<le> g" for g
        proof -
          from pos_fuel [OF l that] obtain g' where "g = Suc g'" by blast
          with v arr s d True show ?thesis by simp
        qed
        with l show ?thesis by blast
      next
        case False
        with a s arr d obtain vs where vs: "scan_items n (d # r0) = Some (vs, r)"
          "v = JArr vs" by auto
        from items [OF vs(1)] have m: "length r < length (d # r0)"
          "\<And>g. length (d # r0) - length r \<le> g \<Longrightarrow> scan_items g (d # r0) = Some (vs, r)"
          by blast+
        from m(1) le s have l: "length r < length s" by simp
        have "scan_once g s = Some (v, r)" if "length s - length r \<le> g" for g
        proof -
          from pos_fuel [OF l that] obtain g' where g: "g = Suc g'" by blast
          with that s le have "length (d # r0) - length r \<le> g'" by simp
          from m(2) [OF this] vs(2) arr s d False g show ?thesis by simp
        qed
        with l show ?thesis by blast
      qed
    next
      case other
      have eq: "scan_once (Suc g') s = scan_once (Suc n) s" for g'
        using other s by simp
      have l: "length r < length s"
      proof -
        from a other s have
          "(startswith s (str ''null'') \<and> r = drop 4 s) \<or>
           (startswith s (str ''true'') \<and> r = drop 4 s) \<or>
           (startswith s (str ''false'') \<and> r = drop 5 s) \<or>
           (\<exists>i. scan_number s = Some (i, r))"
          by (auto split: if_splits)
        then show ?thesis
          using s by (auto simp: startswith_def str_def prefix_def dest: scan_number_shorter)
      qed
      have "scan_once g s = Some (v, r)" if "length s - length r \<le> g" for g
      proof -
        from pos_fuel [OF l that] obtain g' where "g = Suc g'" by blast
        with eq a show ?thesis by simp
      qed
      with l show ?thesis by blast
    qed
  qed
  have B: "length r < length s \<and> (\<forall>g. length s - length r \<le> g \<longrightarrow> scan_items g s = Some (vs, r))"
    if a: "scan_items (Suc n) s = Some (vs, r)" for s vs r
  proof -
    from a obtain v r1 where v: "scan_once n s = Some (v, r1)"
      by (auto split: option.splits)
    from once [OF v] have o: "length r1 < length s"
      "\<And>g. length s - length r1 \<le> g \<Longrightarrow> scan_once g s = Some (v, r1)" by blast+
    from a v obtain d r2 where d: "skip_ws r1 = d # r2" by (cases "skip_ws r1") auto
    have le: "length (d # r2) \<le> length r1" using length_skip_ws [of r1] d by simp
    show ?thesis
    proof (cases "d = 93")
      case True
      with a v d have e: "vs = [v]" "r = r2" by auto
      with le o(1) have l: "length r < length s" by simp
      have "scan_items g s = Some (vs, r)" if "length s - length r \<le> g" for g
      proof -
        from pos_fuel [OF l that] obtain g' where g: "g = Suc g'" by blast
        with that e le o(1) have "length s - length r1 \<le> g'" by simp
        from o(2) [OF this] e d True g show ?thesis by simp
      qed
      with l show ?thesis by blast
    next
      case False
      with a v d obtain ws where ws: "d = 44" "scan_items n (skip_ws r2) = Some (ws, r)"
        "vs = v # ws" by (auto split: if_splits)
      from items [OF ws(2)] have m: "length r < length (skip_ws r2)"
        "\<And>g. length (skip_ws r2) - length r \<le> g \<Longrightarrow> scan_items g (skip_ws r2) = Some (ws, r)"
        by blast+
      have le2: "length (skip_ws r2) \<le> length r2" by (rule length_skip_ws)
      from m(1) le le2 o(1) have l: "length r < length s" by simp
      have "scan_items g s = Some (vs, r)" if "length s - length r \<le> g" for g
      proof -
        from pos_fuel [OF l that] obtain g' where g: "g = Suc g'" by blast
        with that m(1) le le2 o(1) have 1: "length s - length r1 \<le> g'" by simp
        from g that m(1) le le2 o(1) have 2: "length (skip_ws r2) - length r \<le> g'" by simp
        from o(2) [OF 1] m(2) [OF 2] ws d g show ?thesis by simp
      qed
      with l show ?thesis by blast
    qed
  qed
  have C: "length r < length s \<and> (\<forall>g. length s - length r \<le> g \<longrightarrow> scan_members g s = Some (ps, r))"
    if a: "scan_members (Suc n) s = Some (ps, r)" for s ps r
  proof -
    from a obtain s' where s: "s = 34 # s'" by (cases s) (auto split: if_splits)
    from a s obtain k r0 where k: "scanstring s' = Some (k, r0)" by (auto split: option.splits)
    from k have lk: "length r0 < length s'" by (rule scanstring_shorter)
    from a s k obtain r1 where c: "skip_ws r0 = 58 # r1"
      by (cases "skip_ws r0") (auto split: if_splits)
    have lc: "length (58 # r1) \<le> length r0" using length_skip_ws [of r0] c by simp
    from a s k c obtain v r2 where v: "scan_once n (skip_ws r1) = Some (v, r2)"
      by (auto split: option.splits)
    from once [OF v] have o: "length r2 < length (skip_ws r1)"
      "\<And>g. length (skip_ws r1) - length r2 \<le> g \<Longrightarrow> scan_once g (skip_ws r1) = Some (v, r2)"
      by blast+
    have l1: "length (skip_ws r1) \<le> length r1" by (rule length_skip_ws)
    from a s k c v obtain d r3 where d: "skip_ws r2 = d # r3" by (cases "skip_ws r2") auto
    have le: "length (d # r3) \<le> length r2" using length_skip_ws [of r2] d by simp
    show ?thesis
    proof (cases "d = 125")
      case True
      with a s k c v d have e: "ps = [(k, v)]" "r = r3" by auto
      with le o(1) l1 lc lk s have l: "length r < length s" by simp
      have "scan_members g s = Some (ps, r)" if "length s - length r \<le> g" for g
      proof -
        from pos_fuel [OF l that] obtain g' where g: "g = Suc g'" by blast
        with that e le o(1) l1 lc lk s have "length (skip_ws r1) - length r2 \<le> g'" by simp
        from o(2) [OF this] e s k c d True g show ?thesis by simp
      qed
      with l show ?thesis by blast
    next
      case False
      with a s k c v d obtain qs where qs: "d = 44" "scan_members n (skip_ws r3) = Some (qs, r)"
        "ps = (k, v) # qs" by (auto split: if_splits)
      from members [OF qs(2)] have m: "length r < length (skip_ws r3)"
        "\<And>g. length (skip_ws r3) - length r \<le> g \<Longrightarrow> scan_members g (skip_ws r3) = Some (qs, r)"
        by blast+
      have le3: "length (skip_ws r3) \<le> length r3" by (rule length_skip_ws)
      from m(1) le3 le o(1) l1 lc lk s have l: "length r < length s" by simp
      have "scan_members g s = Some (ps, r)" if "length s - length r \<le> g" for g
      proof -
        from pos_fuel [OF l that] obtain g' where g: "g = Suc g'" by blast
        with that m(1) le3 le o(1) l1 lc lk s have 1: "length (skip_ws r1) - length r2 \<le> g'" by simp
        from g that m(1) le3 le o(1) l1 lc lk s have 2: "length (skip_ws r3) - length r \<le> g'" by simp
        from o(2) [OF 1] m(2) [OF 2] qs s k c d g show ?thesis by simp
      qed
      with l show ?thesis by blast
    qed
  qed
  from A B C show ?case by blast
qed

lemma scan_once_more_fuel:
  assumes "scan_once f s = Some (v, r)" and "length s \<le> g"
  shows "scan_once g s = Some (v, r)"
proof -
  from scan_fuel [of f] assms(1)
  have "\<forall>g. length s - length r \<le> g \<longrightarrow> scan_once g s = Some (v, r)" by blast
  moreover have "length s - length r \<le> g" using assms(2) by simp
  ultimately show ?thesis by blast
qed

lemma scan_once_fuel:
  assumes "length s < f" and "length s < g"
  shows "scan_once f s = scan_once g s"
proof (cases "scan_once f s")
  case None
  show ?thesis
  proof (cases "scan_once g s")
    case None
    with \<open>scan_once f s = None\<close> show ?thesis by simp
  next
    case (Some x)
    obtain v r where x: "x = (v, r)" by (cases x)
    from Some x have "scan_once g s = Some (v, r)" by simp
    then have "scan_once f s = Some (v, r)"
      by (rule scan_once_more_fuel) (use assms(1) in simp)
    with None show ?thesis by simp
  qed
next
  case (Some x)
  obtain v r where x: "x = (v, r)" by (cases x)
  from Some x have "scan_once f s = Some (v, r)" by simp
  then have "scan_once g s = Some (v, r)"
    by (rule scan_once_more_fuel) (use assms(2) in simp)
  with Some x show ?thesis by simp
qed

lemma json_loads_fuel:
  assumes "length s < f"
  shows "json_loads s =
       (case scan_once f (skip_ws s) of
          None \<Rightarrow> None
        | Some (v, r) \<Rightarrow> if skip_ws r = [] then Some v else None)"
proof -
  have 1: "length (skip_ws s) < Suc (length s)" using length_skip_ws [of s] by simp
  have 2: "length (skip_ws s) < f" using assms length_skip_ws [of s] by simp
  have "scan_once (Suc (length s)) (skip_ws s) = scan_once f (skip_ws s)"
    using 1 2 by (rule scan_once_fuel)
  then show ?thesis by (simp add: json_loads_def)
qed

subsection \<open>The prompt\<close>

lemma bind_bind_Inr:
  "bind (bind m (\<lambda>r. Inr (f r))) (\<lambda>r. Inr (g r)) = bind m (\<lambda>r. Inr (g (f r)))"
  by (cases m) simp_all

lemma format_from_append:
    "format_from kw xs = Inr px \<Longrightarrow>
      format_from kw (xs @ ys) = bind (format_from kw ys) (\<lambda>r. Inr (px @ r))"
  and format_field_append:
    "format_field kw field xs = Inr px \<Longrightarrow>
      format_field kw field (xs @ ys) = bind (format_from kw ys) (\<lambda>r. Inr (px @ r))"
proof (induction kw xs and kw field xs arbitrary: px and px rule: format_from_format_field.induct)
  case (1 kw)
  then show ?case by (cases "format_from kw ys") simp_all
next
  case (2 kw c cs)
  consider (open2) ds where "c = 123" "cs = 123 # ds"
    | (field) d ds where "c = 123" "cs = d # ds" "d \<noteq> 123"
    | (close2) ds where "c = 125" "cs = 125 # ds"
    | (plain) "c \<noteq> 123" "c \<noteq> 125"
    | (bad) "c = 123 \<and> cs = [] \<or> c = 125 \<and> (cs = [] \<or> hd cs \<noteq> 125)"
    by (cases cs) auto
  then show ?case
  proof cases
    case open2
    with "2.prems" obtain q where q: "format_from kw ds = Inr q" "px = 123 # q"
      by (auto simp: bind_eq_Inr)
    from "2.IH"(1) [OF open2(1) open2(2) refl q(1)]
    have "format_from kw (ds @ ys) = bind (format_from kw ys) (\<lambda>r. Inr (q @ r))" .
    with open2 q show ?thesis by (simp add: bind_bind_Inr)
  next
    case field
    with "2.prems" have "format_field kw [] cs = Inr px" by simp
    from "2.IH"(2) [OF field(1) field(2) field(3) this]
    show ?thesis using field by simp
  next
    case close2
    with "2.prems" obtain q where q: "format_from kw ds = Inr q" "px = 125 # q"
      by (auto simp: bind_eq_Inr)
    have c: "c \<noteq> 123" using close2 by simp
    from "2.IH"(3) [OF c close2(1) close2(2) refl q(1)]
    have "format_from kw (ds @ ys) = bind (format_from kw ys) (\<lambda>r. Inr (q @ r))" .
    with close2 q show ?thesis by (simp add: bind_bind_Inr)
  next
    case plain
    with "2.prems" obtain q where q: "format_from kw cs = Inr q" "px = c # q"
      by (auto simp: bind_eq_Inr)
    from "2.IH"(4) [OF plain(1) plain(2) q(1)]
    have "format_from kw (cs @ ys) = bind (format_from kw ys) (\<lambda>r. Inr (q @ r))" .
    with plain q show ?thesis by (simp add: bind_bind_Inr)
  next
    case bad
    with "2.prems" show ?thesis by (cases cs) auto
  qed
next
  case (3 kw field)
  then show ?case by simp
next
  case (4 kw field c cs)
  show ?case
  proof (cases "c = 125")
    case True
    with "4.prems" obtain v q where v: "kw (rev field) = Some v"
      and q: "format_from kw cs = Inr q" "px = v @ q"
      by (auto simp: bind_eq_Inr split: option.splits)
    from "4.IH"(1) [OF True v q(1)]
    have "format_from kw (cs @ ys) = bind (format_from kw ys) (\<lambda>r. Inr (q @ r))" .
    with True v q show ?thesis by (simp add: bind_bind_Inr)
  next
    case False
    with "4.prems" have "format_field kw (c # field) cs = Inr px" by simp
    from "4.IH"(2) [OF False this] show ?thesis using False by simp
  qed
qed

lemma format_concat:
  "\<forall>l \<in> set ls. \<exists>p. format_from kw l = Inr p \<Longrightarrow>
     format_from kw (concat ls) = Inr (concat (map (\<lambda>l. projr (format_from kw l)) ls))"
proof (induction ls)
  case Nil
  then show ?case by simp
next
  case (Cons l ls)
  then obtain p where p: "format_from kw l = Inr p" by auto
  from Cons have "format_from kw (concat ls) = Inr (concat (map (\<lambda>l. projr (format_from kw l)) ls))"
    by simp
  with p format_from_append [of kw l p "concat ls"] show ?case by simp
qed


lemma sublist_concat_member: "x \<in> set xs \<Longrightarrow> sublist x (concat xs)"
proof -
  assume "x \<in> set xs"
  then obtain a b where "xs = a @ x # b" by (auto simp: in_set_conv_decomp)
  then have "concat xs = concat a @ x @ concat b" by simp
  then show ?thesis by (metis sublist_appendI)
qed

lemma format_lines:
  assumes "\<forall>l \<in> set ls. \<exists>p. format_from kw l = Inr p"
  shows "\<exists>prompt. format_from kw (concat ls) = Inr prompt \<and>
           (\<forall>l p. l \<in> set ls \<and> format_from kw l = Inr p \<longrightarrow> sublist p prompt)"
proof -
  let ?out = "map (\<lambda>l. projr (format_from kw l)) ls"
  have "format_from kw (concat ls) = Inr (concat ?out)"
    using assms by (rule format_concat)
  moreover have "sublist p (concat ?out)" if "l \<in> set ls" "format_from kw l = Inr p" for l p
  proof -
    from that have "p \<in> set ?out" by force
    then show ?thesis by (rule sublist_concat_member)
  qed
  ultimately show ?thesis by blast
qed

lemma prompt_lines_format:
  "\<forall>l \<in> set (map (\<lambda>l. str l @ [10]) PROMPT_LINES). \<exists>p. format_from (prompt_fields u) l = Inr p"
  by (simp add: PROMPT_LINES_def str_def prompt_fields_def)

lemma build_prompt_lines:
  "\<exists>prompt. build_prompt u = Inr prompt \<and>
     (\<forall>l p. l \<in> set PROMPT_LINES \<and> format_from (prompt_fields u) (str l @ [10]) = Inr p
        \<longrightarrow> sublist p prompt)"
proof -
  obtain prompt where a: "format_from (prompt_fields u) (concat (map (\<lambda>l. str l @ [10]) PROMPT_LINES)) = Inr prompt"
    and b: "\<forall>l p. l \<in> set (map (\<lambda>l. str l @ [10]) PROMPT_LINES) \<and> format_from (prompt_fields u) l = Inr p \<longrightarrow> sublist p prompt"
    using format_lines [OF prompt_lines_format] by blast
  from b have "\<forall>l p. l \<in> set PROMPT_LINES \<and> format_from (prompt_fields u) (str l @ [10]) = Inr p
        \<longrightarrow> sublist p prompt" by auto
  with a show ?thesis by (auto simp: build_prompt_def EVALUATION_PROMPT_def)
qed


text \<open>
  Claim C8. For every use case the prompt is built (the template is well formed and
  every name in it is supplied), and it holds every field as given, each on the line of
  its label, the markets and the data types joined by a comma and a space, and the four
  category names \<open>regulatory\<close>, \<open>bias\<close>, \<open>privacy\<close> and \<open>transparency\<close> as the keys
  of the skeleton. The builder is the function \<open>build_prompt\<close>: its result depends on
  the use case alone and it has no effect.
\<close>

theorem prompt_holds_fields_and_categories:
  \<open>\<exists>prompt. build_prompt u = Inr prompt
     \<and> sublist (str ''Name: '' @ name u @ [10]) prompt
     \<and> sublist (str ''Department: '' @ department u @ [10]) prompt
     \<and> sublist (str ''Description: '' @ description u @ [10]) prompt
     \<and> sublist (str ''AI Techniques: '' @ ai_techniques u @ [10]) prompt
     \<and> sublist (str ''Target Markets: '' @ join (str '', '') (markets u) @ [10]) prompt
     \<and> sublist (str ''Data Types: '' @ join (str '', '') (data_types u) @ [10]) prompt
     \<and> sublist (str ''Deployment Stage: '' @ stage u @ [10]) prompt
     \<and> sublist (str ''        "regulatory": {'' @ [10]) prompt
     \<and> sublist (str ''        "bias": {'' @ [10]) prompt
     \<and> sublist (str ''        "privacy": {'' @ [10]) prompt
     \<and> sublist (str ''        "transparency": {'' @ [10]) prompt\<close>
proof -
  obtain prompt where p: "build_prompt u = Inr prompt"
    and l: "\<And>l p. l \<in> set PROMPT_LINES \<Longrightarrow> format_from (prompt_fields u) (str l @ [10]) = Inr p
        \<Longrightarrow> sublist p prompt"
    using build_prompt_lines [of u] by blast
  have 1: "sublist (str ''Name: '' @ name u @ [10]) prompt"
    by (rule l [of "''Name: {name}''"]) (simp_all add: PROMPT_LINES_def str_def prompt_fields_def)
  have 2: "sublist (str ''Department: '' @ department u @ [10]) prompt"
    by (rule l [of "''Department: {department}''"]) (simp_all add: PROMPT_LINES_def str_def prompt_fields_def)
  have 3: "sublist (str ''Description: '' @ description u @ [10]) prompt"
    by (rule l [of "''Description: {description}''"]) (simp_all add: PROMPT_LINES_def str_def prompt_fields_def)
  have 4: "sublist (str ''AI Techniques: '' @ ai_techniques u @ [10]) prompt"
    by (rule l [of "''AI Techniques: {ai_techniques}''"]) (simp_all add: PROMPT_LINES_def str_def prompt_fields_def)
  have 5: "sublist (str ''Target Markets: '' @ join (str '', '') (markets u) @ [10]) prompt"
    by (rule l [of "''Target Markets: {markets}''"]) (simp_all add: PROMPT_LINES_def str_def prompt_fields_def)
  have 6: "sublist (str ''Data Types: '' @ join (str '', '') (data_types u) @ [10]) prompt"
    by (rule l [of "''Data Types: {data_types}''"]) (simp_all add: PROMPT_LINES_def str_def prompt_fields_def)
  have 7: "sublist (str ''Deployment Stage: '' @ stage u @ [10]) prompt"
    by (rule l [of "''Deployment Stage: {stage}''"]) (simp_all add: PROMPT_LINES_def str_def prompt_fields_def)
  have 8: \<open>sublist (str ''        "regulatory": {'' @ [10]) prompt\<close>
    by (rule l [of \<open>''        "regulatory": {{''\<close>]) (simp_all add: PROMPT_LINES_def str_def prompt_fields_def)
  have 9: \<open>sublist (str ''        "bias": {'' @ [10]) prompt\<close>
    by (rule l [of \<open>''        "bias": {{''\<close>]) (simp_all add: PROMPT_LINES_def str_def prompt_fields_def)
  have 10: \<open>sublist (str ''        "privacy": {'' @ [10]) prompt\<close>
    by (rule l [of \<open>''        "privacy": {{''\<close>]) (simp_all add: PROMPT_LINES_def str_def prompt_fields_def)
  have 11: \<open>sublist (str ''        "transparency": {'' @ [10]) prompt\<close>
    by (rule l [of \<open>''        "transparency": {{''\<close>]) (simp_all add: PROMPT_LINES_def str_def prompt_fields_def)
  from p 1 2 3 4 5 6 7 8 9 10 11 show ?thesis by blast
qed

subsection \<open>Cleaning and parsing the response\<close>

lemma FENCE_not_nil: "FENCE \<noteq> []"
  by (simp add: FENCE_def str_def)

lemma clean_plain:
  "\<not> prefix FENCE (strip c) \<Longrightarrow> clean_response c = Inr (strip c)"
  by (simp add: clean_response_def startswith_def bind_def strip_idem)

lemma clean_fenced:
  assumes "prefix FENCE (strip c)"
  shows "\<exists>piece. \<not> sublist FENCE piece \<and>
           clean_response c =
             Inr (strip (if startswith piece (str ''json'') then drop 4 piece else piece))"
proof -
  obtain a as where t: "strip c = a # as"
    using assms FENCE_not_nil by (cases "strip c") auto
  define rest where "rest = drop (length FENCE - 1) as"
  have s: "split FENCE (strip c) = [] # split FENCE rest"
    using assms FENCE_not_nil by (simp add: t rest_def)
  obtain q qs where q: "split FENCE rest = q # qs"
    using split_nonempty [of FENCE rest] by (cases "split FENCE rest") auto
  have "q \<in> set (split FENCE (strip c))" unfolding s q by simp
  then have "\<not> sublist FENCE q" by (rule split_pieces_free [OF FENCE_not_nil])
  moreover have "clean_response c =
      Inr (strip (if startswith q (str ''json'') then drop 4 q else q))"
    using assms by (simp add: clean_response_def startswith_def bind_def s q)
  ultimately show ?thesis by blast
qed

lemma clean_fixed:
  assumes "\<not> sublist FENCE piece" and "sublist u piece"
  shows "clean_response (strip u) = Inr (strip u)"
proof -
  have "sublist (strip (strip u)) piece"
    using assms(2) sublist_strip sublist_order.order.trans
    by (metis strip_idem)
  then have "\<not> sublist FENCE (strip (strip u))"
    using assms(1) sublist_order.order.trans by blast
  then have "\<not> prefix FENCE (strip (strip u))" by auto
  then show ?thesis by (simp add: clean_plain strip_idem)
qed


text \<open>
  Claim C4. The clean-up of the response text is idempotent: on every text it returns a
  text, and cleaning that text again returns it unchanged.
\<close>

theorem clean_response_idempotent:
  "\<exists>u. clean_response t = Inr u \<and> clean_response u = Inr u"
proof (cases "prefix FENCE (strip t)")
  case False
  then have a: "clean_response t = Inr (strip t)" by (rule clean_plain)
  from False have "clean_response (strip t) = Inr (strip t)"
    by (simp add: clean_plain strip_idem)
  with a show ?thesis by simp
next
  case True
  then obtain piece where p: "\<not> sublist FENCE piece"
    and c: "clean_response t =
      Inr (strip (if startswith piece (str ''json'') then drop 4 piece else piece))"
    using clean_fenced by blast
  have "sublist (if startswith piece (str ''json'') then drop 4 piece else piece) piece"
    by simp
  then have "clean_response (strip (if startswith piece (str ''json'') then drop 4 piece else piece))
      = Inr (strip (if startswith piece (str ''json'') then drop 4 piece else piece))"
    by (rule clean_fixed [OF p])
  with c show ?thesis by simp
qed

lemma split_first:
  "sep \<noteq> [] \<Longrightarrow> \<forall>k < length m. \<not> prefix sep (drop k (m @ sep @ r)) \<Longrightarrow>
     split sep (m @ sep @ r) = m # split sep r"
proof (induction m)
  case Nil
  then obtain c sep' where c: "sep = c # sep'" by (cases sep) auto
  show ?case by (simp add: c)
next
  case (Cons a m)
  from Cons.prems(2) have np: "\<not> prefix sep (a # m @ sep @ r)" by force
  have "\<forall>k < length m. \<not> prefix sep (drop k (m @ sep @ r))"
  proof (intro allI impI)
    fix k assume "k < length m"
    then have "Suc k < length (a # m)" by simp
    with Cons.prems(2) have "\<not> prefix sep (drop (Suc k) ((a # m) @ sep @ r))" by blast
    then show "\<not> prefix sep (drop k (m @ sep @ r))" by simp
  qed
  with Cons.IH Cons.prems(1) have "split sep (m @ sep @ r) = m # split sep r" by simp
  with np show ?case by simp
qed

lemma no_fence_before_closing:
  assumes "\<not> sublist FENCE (m @ [96, 96])"
  shows "\<forall>k < length m. \<not> prefix FENCE (drop k (m @ FENCE @ []))"
proof (intro allI impI notI)
  fix k assume k: "k < length m" and p: "prefix FENCE (drop k (m @ FENCE @ []))"
  have d: "drop k (m @ FENCE) = drop k m @ FENCE" using k by simp
  have "prefix (drop k m @ [96, 96]) (drop k m @ FENCE)"
    by (simp add: FENCE_def str_def)
  moreover have "length FENCE \<le> length (drop k m @ [96, 96])"
    using k by (simp add: FENCE_def str_def)
  ultimately have "prefix FENCE (drop k m @ [96, 96])"
    using p d by (metis append_Nil2 prefix_length_prefix)
  then have "sublist FENCE (drop k m @ [96, 96])" by (rule prefix_imp_sublist)
  moreover have "suffix (drop k m @ [96, 96]) (m @ [96, 96])"
    by (simp add: suffix_drop)
  ultimately have "sublist FENCE (m @ [96, 96])"
    using sublist_order.order.trans suffix_imp_sublist by blast
  with assms show False by simp
qed

lemma json_tag_no_fence:
  "\<not> sublist FENCE x \<Longrightarrow> \<not> sublist FENCE (str ''json'' @ x)"
  by (simp add: str_def FENCE_def sublist_Cons_right)

text \<open>
  Claim C3, as amended. A response that is a fenced block, the opening fence followed by
  nothing or by the tag \<open>json\<close>, then a body, then the closing fence, is cleaned to the
  stripped body and parses as the body alone does, provided that no fence marker starts
  inside the body (the body holds no triple backtick and does not end with a backtick)
  and that an untagged body does not itself start with \<open>json\<close>.
\<close>

theorem fenced_response_parses_as_payload:
  assumes tag: "tag = [] \<or> tag = str ''json''"
    and free: "\<not> sublist FENCE (body @ [96, 96])"
    and untagged: "tag = [] \<Longrightarrow> \<not> startswith body (str ''json'')"
  shows "clean_response (FENCE @ tag @ body @ FENCE) = Inr (strip body)
       \<and> clean_response body = Inr (strip body)
       \<and> parse_response (FENCE @ tag @ body @ FENCE) = parse_response body"
proof -
  let ?w = "FENCE @ tag @ body @ FENCE"
  have "stripped ?w" by (simp add: stripped_def FENCE_def str_def is_space_def)
  then have sw: "strip ?w = ?w" by (rule strip_stripped)
  have pw: "prefix FENCE ?w" by simp
  have free': "\<not> sublist FENCE ((tag @ body) @ [96, 96])"
    using tag free json_tag_no_fence [of "body @ [96, 96]"] by auto
  have "split FENCE ([] @ FENCE @ (tag @ body) @ FENCE @ []) = [] # split FENCE ((tag @ body) @ FENCE @ [])"
    by (rule split_first [OF FENCE_not_nil]) simp
  moreover have "split FENCE ((tag @ body) @ FENCE @ []) = (tag @ body) # split FENCE []"
    by (rule split_first [OF FENCE_not_nil no_fence_before_closing [OF free']])
  ultimately have sp: "split FENCE ?w = [[], tag @ body, []]" by simp
  have piece: "(if startswith (tag @ body) (str ''json'') then drop 4 (tag @ body) else tag @ body) = body"
    using tag untagged by (auto simp: startswith_def str_def)
  have a: "clean_response ?w = Inr (strip body)"
    unfolding clean_response_def Let_def sw using pw
    by (simp add: startswith_def sp bind_def piece [unfolded startswith_def])
  have "sublist body (body @ [96, 96])" by simp
  with free have "\<not> sublist FENCE body" using sublist_order.order.trans by blast
  then have "\<not> sublist FENCE (strip body)"
    using sublist_strip sublist_order.order.trans by blast
  then have "\<not> prefix FENCE (strip body)" by auto
  then have b: "clean_response body = Inr (strip body)" by (rule clean_plain)
  from a b show ?thesis by (simp add: parse_response_def)
qed

lemmas eval_text = str_def FENCE_def strip_def is_space_def startswith_def
lemmas eval_loads = json_loads_def skip_ws_def json_ws_def scan_number_def
  scan_digits_def is_digit_def digits_value_def dict_of_pairs_def

theorem fenced_response_witness:
  \<open>parse_response (str ''```json'' @ [10] @ str ''{"a": 1}'' @ [10] @ str ''```'') =
     parse_response ([10] @ str ''{"a": 1}'' @ [10])\<close>
  using fenced_response_parses_as_payload [of "str ''json''" \<open>[10] @ str ''{"a": 1}'' @ [10]\<close>]
  by (simp add: eval_text sublist_code)

text \<open>
  A payload with a fence marker inside a JSON text is cut at that marker: the fenced
  response fails to parse where the payload alone parses.
\<close>

theorem fence_inside_payload_counterexample:
  \<open>parse_response (str ''```json'' @ [10] @ str ''{"a": "```"}'' @ [10] @ str ''```'') = Inl ParseFailed
   \<and> parse_response (str ''{"a": "```"}'') = Inr (JObj [(str ''a'', JStr (str ''```''))])\<close>
  by (simp add: parse_response_def clean_response_def bind_def eval_text eval_loads)





subsection \<open>The report\<close>















subsection \<open>The risk badge\<close>




subsection \<open>The export\<close>

text \<open>
  Decoding what the encoder writes gives the value back: first for texts and numbers,
  then for the items of a list and the members of a dictionary, then for every value by
  induction, the text after the value being arbitrary as long as it does not continue a
  number.
\<close>

lemma hexval_hexdigit: "d < 16 \<Longrightarrow> hexval (hexdigit d) = Some d"
  by (auto simp: hexval_def hexdigit_def)

lemma length_hex4_repr [simp]: "length (hex4_repr n) = 4"
  by (simp add: hex4_repr_def)

lemma hex_digits_value:
  "((n div 4096 * 16 + n div 256 mod 16) * 16 + n div 16 mod 16) * 16 + n mod 16 = (n::nat)"
proof -
  define q1 q2 q3 where "q1 = n div 16" and "q2 = n div 256" and "q3 = n div 4096"
  define r0 r1 r2 where "r0 = n mod 16" and "r1 = q1 mod 16" and "r2 = q2 mod 16"
  have 1: "q1 div 16 = q2" by (simp add: q1_def q2_def div_mult2_eq [symmetric])
  have 2: "q2 div 16 = q3" by (simp add: q2_def q3_def div_mult2_eq [symmetric])
  have e1: "n = q1 * 16 + r0" by (simp add: q1_def r0_def)
  have e2: "q1 = q2 * 16 + r1" using div_mult_mod_eq [of q1 16] 1 by (simp add: r1_def)
  have e3: "q2 = q3 * 16 + r2" using div_mult_mod_eq [of q2 16] 2 by (simp add: r2_def)
  have "((q3 * 16 + r2) * 16 + r1) * 16 + r0 = n"
    unfolding e3 [symmetric] e2 [symmetric] e1 [symmetric] ..
  then show ?thesis by (simp add: q1_def q2_def q3_def r0_def r1_def r2_def)
qed

lemma hex4_hex4_repr:
  assumes "n < 65536"
  shows "hex4 (hex4_repr n @ rest) = Some n"
proof -
  have a: "n div 4096 mod 16 = n div 4096" using assms by simp
  have b: "n div 4096 < 16" using assms by simp
  have c: "4096 * (n div 4096) + 256 * (n div 256 mod 16) + n div 16 mod 16 * 16 + n mod 16 = n"
    using hex_digits_value [of n] by simp
  show ?thesis
    by (simp add: hex4_def hex4_repr_def a hexval_hexdigit [OF b] hexval_hexdigit c)
qed

lemma unescape_u:
  assumes "n < 65536" and "\<not> (0xD800 \<le> n \<and> n \<le> 0xDBFF)"
  shows "unescape (117 # hex4_repr n @ rest) = Some (n, rest)"
  using assms by (auto simp: unescape_def hex4_hex4_repr Let_def)

lemma unescape_pair:
  assumes "0x10000 \<le> c" and "c < 0x110000"
  shows "unescape (117 # hex4_repr (0xD800 + (c - 0x10000) div 1024 mod 1024) @
           [92, 117] @ hex4_repr (0xDC00 + (c - 0x10000) mod 1024) @ rest) = Some (c, rest)"
proof -
  define v where "v = c - 0x10000"
  have v: "v < 0x100000" "c = 0x10000 + v" using assms by (simp_all add: v_def)
  define hi where "hi = 0xD800 + v div 1024 mod 1024"
  define lo where "lo = 0xDC00 + v mod 1024"
  have hi: "hi < 65536" "0xD800 \<le> hi" "hi \<le> 0xDBFF" "hi - 0xD800 = v div 1024"
    using v(1) by (simp_all add: hi_def)
  have lo: "lo < 65536" "0xDC00 \<le> lo" "lo \<le> 0xDFFF" "lo - 0xDC00 = v mod 1024"
    by (simp_all add: lo_def)
  have h1: "hex4 (hex4_repr hi @ 92 # 117 # hex4_repr lo @ rest) = Some hi"
    by (rule hex4_hex4_repr [OF hi(1)])
  have h2: "hex4 (hex4_repr lo @ rest) = Some lo"
    by (rule hex4_hex4_repr [OF lo(1)])
  have "unescape (117 # hex4_repr hi @ 92 # 117 # hex4_repr lo @ rest) =
      Some (0x10000 + (hi - 0xD800) * 1024 + (lo - 0xDC00), rest)"
    unfolding unescape_def using hi(2,3) lo(2,3)
    by (simp add: h1 h2 Let_def del: One_nat_def)
  moreover have "0x10000 + (hi - 0xD800) * 1024 + (lo - 0xDC00) = c"
    unfolding hi(4) lo(4) v(2) by simp
  ultimately show ?thesis by (simp add: hi_def lo_def v_def)
qed

lemma scanstring_escape_cp:
  assumes "valid_cp c" and "scanstring rest = Some (t, r)"
  shows "scanstring (escape_cp c @ rest) = Some (c # t, r)"
proof -
  consider (short) "c \<in> {34, 92, 10, 13, 9, 8, 12}"
    | (plain) "32 \<le> c" "c \<le> 126" "c \<noteq> 34" "c \<noteq> 92"
    | (bmp) "c \<notin> {34, 92, 10, 13, 9, 8, 12}" "\<not> (32 \<le> c \<and> c \<le> 126)" "c < 0x10000"
    | (astral) "0x10000 \<le> c"
    by (cases "c < 0x10000") auto
  then show ?thesis
  proof cases
    case short
    then show ?thesis using assms(2) by (auto simp: escape_cp_def unescape_def)
  next
    case plain
    then show ?thesis using assms(2) by (simp add: escape_cp_def)
  next
    case bmp
    from bmp(3) assms(1) have "\<not> (0xD800 \<le> c \<and> c \<le> 0xDBFF)" by (auto simp: valid_cp_def)
    from unescape_u [OF bmp(3) this, of rest] bmp assms(2)
    show ?thesis by (simp add: escape_cp_def)
  next
    case astral
    with assms(1) have "c < 0x110000" by (auto simp: valid_cp_def)
    from unescape_pair [OF astral this, of rest] astral assms(2)
    show ?thesis by (simp add: escape_cp_def)
  qed
qed

lemma scanstring_escaped:
  "list_all valid_cp s \<Longrightarrow> scanstring (concat (map escape_cp s) @ 34 # rest) = Some (s, rest)"
proof (induction s)
  case Nil
  then show ?case by simp
next
  case (Cons c s)
  then have "scanstring (concat (map escape_cp s) @ 34 # rest) = Some (s, rest)" by simp
  with Cons.prems show ?case by (simp add: scanstring_escape_cp)
qed

declare nat_repr.simps [simp del]

lemma nat_repr_digits: "nat_repr n \<noteq> [] \<and> list_all is_digit (nat_repr n)"
proof (induction n rule: nat_repr.induct)
  case (1 n)
  show ?case
  proof (cases "n < 10")
    case True
    then show ?thesis by (subst nat_repr.simps, subst (2) nat_repr.simps) (simp add: is_digit_def)
  next
    case False
    with 1 have "list_all is_digit (nat_repr (n div 10))" by simp
    moreover have "is_digit (48 + n mod 10)" by (simp add: is_digit_def)
    ultimately show ?thesis using False
      by (subst nat_repr.simps, subst (2) nat_repr.simps) simp
  qed
qed

lemma digits_value_snoc: "digits_value (ds @ [d]) = digits_value ds * 10 + (d - 48)"
  by (simp add: digits_value_def)

lemma digits_value_nat_repr: "digits_value (nat_repr n) = n"
proof (induction n rule: nat_repr.induct)
  case (1 n)
  show ?case
  proof (cases "n < 10")
    case True
    then show ?thesis by (subst nat_repr.simps) (simp add: digits_value_def)
  next
    case False
    with 1 have "digits_value (nat_repr (n div 10)) = n div 10" by simp
    with False show ?thesis by (subst nat_repr.simps) (simp add: digits_value_snoc)
  qed
qed

lemma nat_repr_no_leading_zero: "0 < n \<Longrightarrow> hd (nat_repr n) \<noteq> 48"
proof (induction n rule: nat_repr.induct)
  case (1 n)
  show ?case
  proof (cases "n < 10")
    case True
    with "1.prems" show ?thesis by (subst nat_repr.simps) simp
  next
    case False
    then have "0 < n div 10" by simp
    with 1 False have "hd (nat_repr (n div 10)) \<noteq> 48" by simp
    moreover have "nat_repr (n div 10) \<noteq> []" using nat_repr_digits by blast
    ultimately show ?thesis using False by (subst nat_repr.simps) simp
  qed
qed

lemma scan_digits_nat_repr:
  assumes "number_stops rest"
  shows "scan_digits (nat_repr n @ rest) = Some (n, rest)"
proof (cases "n = 0")
  case True
  then show ?thesis by (subst nat_repr.simps) (simp add: scan_digits_def)
next
  case False
  obtain d ds where d: "nat_repr n = d # ds"
    using nat_repr_digits [of n] by (cases "nat_repr n") auto
  have all: "list_all is_digit (nat_repr n)" using nat_repr_digits by blast
  from False have "hd (nat_repr n) \<noteq> 48" by (simp add: nat_repr_no_leading_zero)
  with d have d0: "d \<noteq> 48" by simp
  from all d have dd: "is_digit d" by simp
  have tr: "takeWhile is_digit rest = []" "dropWhile is_digit rest = rest"
    using assms by (cases rest; simp add: number_stops_def)+
  have tw: "takeWhile is_digit (nat_repr n @ rest) = nat_repr n"
    using all tr by (simp add: takeWhile_append2 list_all_iff)
  have dw: "dropWhile is_digit (nat_repr n @ rest) = rest"
    using all tr by (simp add: dropWhile_append2 list_all_iff)
  have "scan_digits (nat_repr n @ rest) =
      Some (digits_value (takeWhile is_digit (nat_repr n @ rest)), dropWhile is_digit (nat_repr n @ rest))"
    using d d0 dd by (simp add: scan_digits_def)
  then show ?thesis by (simp add: tw dw digits_value_nat_repr)
qed

lemma hd_nat_repr_digit: "is_digit (hd (nat_repr n))"
  using nat_repr_digits [of n] by (cases "nat_repr n") auto

lemma scan_number_int_repr:
  assumes "number_stops rest"
  shows "scan_number (int_repr i @ rest) = Some (i, rest)"
proof (cases "i < 0")
  case True
  then show ?thesis
    by (simp add: scan_number_def int_repr_def scan_digits_nat_repr [OF assms])
next
  case False
  obtain d ds where d: "nat_repr (nat i) = d # ds"
    using nat_repr_digits [of "nat i"] by (cases "nat_repr (nat i)") auto
  have "is_digit d" using hd_nat_repr_digit [of "nat i"] d by simp
  then have "d \<noteq> 45" by (auto simp: is_digit_def)
  then have "scan_number (nat_repr (nat i) @ rest) =
      map_option (\<lambda>(n, t). (int n, t)) (scan_digits (nat_repr (nat i) @ rest))"
    by (simp add: scan_number_def d)
  with False show ?thesis
    by (simp add: int_repr_def scan_digits_nat_repr [OF assms])
qed

lemma int_repr_first:
  "\<exists>c cs. int_repr i = c # cs \<and> (c = 45 \<or> is_digit c)"
proof (cases "i < 0")
  case True
  then show ?thesis by (simp add: int_repr_def)
next
  case False
  obtain d ds where d: "nat_repr (nat i) = d # ds"
    using nat_repr_digits [of "nat i"] by (cases "nat_repr (nat i)") auto
  have "is_digit d" using hd_nat_repr_digit [of "nat i"] d by simp
  with d False show ?thesis by (simp add: int_repr_def)
qed

lemma scan_once_int:
  assumes "number_stops rest"
  shows "scan_once (Suc n) (int_repr i @ rest) = Some (JInt i, rest)"
proof -
  obtain c cs where c: "int_repr i = c # cs" "c = 45 \<or> is_digit c"
    using int_repr_first by blast
  from c(2) have ne: "c \<noteq> 34" "c \<noteq> 123" "c \<noteq> 91" "c \<noteq> 110" "c \<noteq> 116" "c \<noteq> 102"
    by (auto simp: is_digit_def)
  have "scan_once (Suc n) (c # cs @ rest) =
      map_option (\<lambda>(i, r). (JInt i, r)) (scan_number (c # cs @ rest))"
    using ne by (simp add: startswith_def str_def)
  then show ?thesis
    using scan_number_int_repr [OF assms, of i] c(1) by simp
qed

lemma scan_once_str:
  "list_all valid_cp s \<Longrightarrow> scan_once (Suc n) (encode_str s @ rest) = Some (JStr s, rest)"
  by (simp add: encode_str_def scanstring_escaped)

lemma scan_once_null: "scan_once (Suc n) (str ''null'' @ rest) = Some (JNull, rest)"
  by (simp add: str_def startswith_def)

lemma scan_once_true: "scan_once (Suc n) (str ''true'' @ rest) = Some (JBool True, rest)"
  by (simp add: str_def startswith_def)

lemma scan_once_false: "scan_once (Suc n) (str ''false'' @ rest) = Some (JBool False, rest)"
  by (simp add: str_def startswith_def)

lemma starts_value_append: "starts_value s \<Longrightarrow> starts_value (s @ t)"
  by (auto simp: starts_value_def)

lemma dumps_at_starts: "starts_value (dumps_at level v)"
proof (cases v)
  case (JInt i)
  then show ?thesis using int_repr_first [of i] by (auto simp: starts_value_def)
qed (auto simp: starts_value_def str_def encode_str_def)

lemma skip_ws_value: "starts_value s \<Longrightarrow> skip_ws s = s"
  by (auto simp: starts_value_def skip_ws_def json_ws_def is_digit_def)

lemma skip_ws_newline_indent: "skip_ws (newline_indent k @ s) = skip_ws s"
proof -
  have "\<forall>c \<in> set (newline_indent k). json_ws c"
    by (auto simp: newline_indent_def json_ws_def)
  then show ?thesis by (simp add: skip_ws_def dropWhile_append)
qed

lemma skip_ws_not_ws: "\<not> json_ws c \<Longrightarrow> skip_ws (c # s) = c # s"
  by (simp add: skip_ws_def)

lemma number_stops_simps [simp]:
  "number_stops (44 # s)" "number_stops (newline_indent k @ s)" "number_stops []"
  by (simp_all add: number_stops_def newline_indent_def is_digit_def)

lemma length_dumps_pos: "0 < length (dumps_at level v)"
  using dumps_at_starts [of level v] by (auto simp: starts_value_def)

lemma join_starts:
  "xs \<noteq> [] \<Longrightarrow> \<forall>x \<in> set xs. starts_value x \<Longrightarrow> starts_value (join sep xs)"
  by (induction sep xs rule: join.induct) (auto simp: starts_value_append)

text \<open>The items of a list.\<close>

lemma scan_items_joined:
  assumes "vs \<noteq> []"
    and "\<forall>v \<in> set vs. \<forall>rest f. number_stops rest \<longrightarrow> length (dumps_at (Suc level) v) \<le> f \<longrightarrow>
           scan_once f (dumps_at (Suc level) v @ rest) = Some (v, rest)"
    and "length (join (item_sep level) (map (dumps_at (Suc level)) vs)) < n"
  shows "scan_items n (join (item_sep level) (map (dumps_at (Suc level)) vs) @
           newline_indent level @ 93 # rest) = Some (vs, rest)"
  using assms
proof (induction vs arbitrary: n)
  case Nil
  then show ?case by simp
next
  case (Cons v vs)
  from Cons.prems(3) obtain m where n: "n = Suc m" by (cases n) auto
  have pv: "\<And>rest f. number_stops rest \<Longrightarrow> length (dumps_at (Suc level) v) \<le> f \<Longrightarrow>
           scan_once f (dumps_at (Suc level) v @ rest) = Some (v, rest)"
    using Cons.prems(2) by simp
  show ?case
  proof (cases "vs = []")
    case True
    with Cons.prems(3) n have "length (dumps_at (Suc level) v) \<le> m" by simp
    then have "scan_once m (dumps_at (Suc level) v @ newline_indent level @ 93 # rest) =
        Some (v, newline_indent level @ 93 # rest)"
      by (intro pv) simp
    moreover have "skip_ws (newline_indent level @ 93 # rest) = 93 # rest"
      by (simp add: skip_ws_newline_indent skip_ws_not_ws json_ws_def)
    ultimately show ?thesis using True n by simp
  next
    case False
    then obtain w ws where ws: "vs = w # ws" by (cases vs) auto
    let ?j = "join (item_sep level) (map (dumps_at (Suc level)) vs)"
    have j: "join (item_sep level) (map (dumps_at (Suc level)) (v # vs)) =
        dumps_at (Suc level) v @ item_sep level @ ?j"
      by (simp add: ws)
    have lv: "length (dumps_at (Suc level) v) \<le> m" and lj: "length ?j < m"
      using Cons.prems(3) n unfolding j by (simp_all add: item_sep_def newline_indent_def)
    have "scan_once m (dumps_at (Suc level) v @
          44 # newline_indent (Suc level) @ ?j @ newline_indent level @ 93 # rest) =
        Some (v, 44 # newline_indent (Suc level) @ ?j @ newline_indent level @ 93 # rest)"
      using lv by (intro pv) simp
    moreover have "skip_ws (44 # newline_indent (Suc level) @ ?j @ newline_indent level @ 93 # rest) =
        44 # newline_indent (Suc level) @ ?j @ newline_indent level @ 93 # rest"
      by (simp add: skip_ws_not_ws json_ws_def)
    moreover have "starts_value ?j"
      using False by (intro join_starts) (simp_all add: dumps_at_starts)
    then have "skip_ws (newline_indent (Suc level) @ ?j @ newline_indent level @ 93 # rest) =
        ?j @ newline_indent level @ 93 # rest"
      by (simp add: skip_ws_newline_indent skip_ws_value starts_value_append)
    moreover have "scan_items m (?j @ newline_indent level @ 93 # rest) = Some (vs, rest)"
      using False Cons.prems(2) lj by (intro Cons.IH) simp_all
    ultimately show ?thesis unfolding j n by (simp add: item_sep_def)
  qed
qed

declare scan_once.simps [simp del] scan_items.simps [simp del] scan_members.simps [simp del]

lemma member_text_starts: "starts_value (member_text level kv)"
  by (cases kv) (simp add: member_text_def encode_str_def starts_value_def)

lemma scan_members_joined:
  assumes "d \<noteq> []"
    and "\<forall>kv \<in> set d. valid_text (fst kv) \<and> (\<forall>rest f. number_stops rest \<longrightarrow>
           length (dumps_at (Suc level) (snd kv)) \<le> f \<longrightarrow>
           scan_once f (dumps_at (Suc level) (snd kv) @ rest) = Some (snd kv, rest))"
    and "length (join (item_sep level) (map (member_text level) d)) < n"
  shows "scan_members n (join (item_sep level) (map (member_text level) d) @
           newline_indent level @ 125 # rest) = Some (d, rest)"
  using assms
proof (induction d arbitrary: n)
  case Nil
  then show ?case by simp
next
  case (Cons kv d)
  obtain k v where kv: "kv = (k, v)" by (cases kv)
  from Cons.prems(3) obtain m where n: "n = Suc m" by (cases n) auto
  have vk: "list_all valid_cp k" using Cons.prems(2) kv by (simp add: valid_text_def)
  have pv: "\<And>rest f. number_stops rest \<Longrightarrow> length (dumps_at (Suc level) v) \<le> f \<Longrightarrow>
           scan_once f (dumps_at (Suc level) v @ rest) = Some (v, rest)"
    using Cons.prems(2) kv by simp
  have key: "scanstring (concat (map escape_cp k) @ 34 # 58 # 32 # t) = Some (k, 58 # 32 # t)" for t
    using vk by (rule scanstring_escaped)
  have colon: "skip_ws (58 # 32 # t) = 58 # 32 # t" for t
    by (simp add: skip_ws_not_ws json_ws_def)
  have space: "skip_ws (32 # dumps_at (Suc level) v @ t) = dumps_at (Suc level) v @ t" for t
  proof -
    have "skip_ws (32 # dumps_at (Suc level) v @ t) = skip_ws (dumps_at (Suc level) v @ t)"
      by (simp add: skip_ws_def json_ws_def)
    then show ?thesis by (simp add: skip_ws_value starts_value_append dumps_at_starts)
  qed
  have step: "scan_members (Suc m) (member_text level (k, v) @ t) =
      (case scan_once m (dumps_at (Suc level) v @ t) of
         None \<Rightarrow> None
       | Some (v', r2) \<Rightarrow>
           (case skip_ws r2 of
              [] \<Rightarrow> None
            | c # r3 \<Rightarrow>
                if c = 125 then Some ([(k, v')], r3)
                else if c = 44 then
                  map_option (\<lambda>(ps, r4). ((k, v') # ps, r4)) (scan_members m (skip_ws r3))
                else None))" for t
    by (simp add: scan_members.simps member_text_def encode_str_def key colon space)
  show ?case
  proof (cases "d = []")
    case True
    with Cons.prems(3) n kv have "length (dumps_at (Suc level) v) \<le> m"
      by (simp add: member_text_def)
    then have "scan_once m (dumps_at (Suc level) v @ newline_indent level @ 125 # rest) =
        Some (v, newline_indent level @ 125 # rest)"
      by (intro pv) simp
    moreover have "skip_ws (newline_indent level @ 125 # rest) = 125 # rest"
      by (simp add: skip_ws_newline_indent skip_ws_not_ws json_ws_def)
    ultimately show ?thesis using True n kv by (simp add: step)
  next
    case False
    then obtain w ws where ws: "d = w # ws" by (cases d) auto
    let ?j = "join (item_sep level) (map (member_text level) d)"
    have j: "join (item_sep level) (map (member_text level) (kv # d)) =
        member_text level (k, v) @ item_sep level @ ?j"
      by (simp add: ws kv)
    have lv: "length (dumps_at (Suc level) v) \<le> m" and lj: "length ?j < m"
      using Cons.prems(3) n unfolding j
      by (simp_all add: item_sep_def newline_indent_def member_text_def)
    have "scan_once m (dumps_at (Suc level) v @
          44 # newline_indent (Suc level) @ ?j @ newline_indent level @ 125 # rest) =
        Some (v, 44 # newline_indent (Suc level) @ ?j @ newline_indent level @ 125 # rest)"
      using lv by (intro pv) simp
    moreover have "skip_ws (44 # newline_indent (Suc level) @ ?j @ newline_indent level @ 125 # rest) =
        44 # newline_indent (Suc level) @ ?j @ newline_indent level @ 125 # rest"
      by (simp add: skip_ws_not_ws json_ws_def)
    moreover have "starts_value ?j"
      using False by (intro join_starts) (simp_all add: member_text_starts)
    then have "skip_ws (newline_indent (Suc level) @ ?j @ newline_indent level @ 125 # rest) =
        ?j @ newline_indent level @ 125 # rest"
      by (simp add: skip_ws_newline_indent skip_ws_value starts_value_append)
    moreover have "scan_members m (?j @ newline_indent level @ 125 # rest) = Some (d, rest)"
      using False Cons.prems(2) lj by (intro Cons.IH) simp_all
    ultimately show ?thesis unfolding j n by (simp add: step item_sep_def kv)
  qed
qed

lemma dict_set_fresh: "k \<notin> fst ` set d \<Longrightarrow> dict_set k v d = d @ [(k, v)]"
  by (induction d) auto

lemma foldl_dict_set:
  "distinct (map fst (acc @ ps)) \<Longrightarrow>
     foldl (\<lambda>d (k, v). dict_set k v d) acc ps = acc @ ps"
proof (induction ps arbitrary: acc)
  case Nil
  then show ?case by simp
next
  case (Cons p ps)
  obtain k v where p: "p = (k, v)" by (cases p)
  from Cons.prems p have "k \<notin> fst ` set acc" by auto
  then have "dict_set k v acc = acc @ [(k, v)]" by (rule dict_set_fresh)
  moreover have "distinct (map fst ((acc @ [(k, v)]) @ ps))" using Cons.prems p by simp
  ultimately show ?case using Cons.IH [of "acc @ [(k, v)]"] p by simp
qed

lemma dict_of_pairs_distinct: "distinct (map fst d) \<Longrightarrow> dict_of_pairs d = d"
  using foldl_dict_set [of "[]" d] by (simp add: dict_of_pairs_def)

lemma scan_once_dumps:
  "wf_json v \<Longrightarrow> number_stops rest \<Longrightarrow> length (dumps_at level v) \<le> f \<Longrightarrow>
     scan_once f (dumps_at level v @ rest) = Some (v, rest)"
proof (induction v arbitrary: level rest f)
  case JNull
  then obtain n where "f = Suc n" by (cases f) (auto simp: str_def)
  then show ?case by (simp add: scan_once_null)
next
  case (JBool b)
  then obtain n where "f = Suc n" by (cases f) (auto simp: str_def split: if_splits)
  then show ?case by (simp add: scan_once_true scan_once_false)
next
  case (JInt i)
  then obtain n where "f = Suc n" using length_dumps_pos [of level "JInt i"] by (cases f) auto
  with JInt show ?case by (simp add: scan_once_int)
next
  case (JStr s)
  then obtain n where "f = Suc n" using length_dumps_pos [of level "JStr s"] by (cases f) auto
  with JStr show ?case by (simp add: scan_once_str valid_text_def)
next
  case (JArr vs)
  from JArr.prems(3) obtain n where f: "f = Suc n"
    using length_dumps_pos [of level "JArr vs"] by (cases f) auto
  show ?case
  proof (cases "vs = []")
    case True
    then show ?thesis by (simp add: scan_once.simps f str_def skip_ws_def json_ws_def)
  next
    case False
    let ?j = "join (item_sep level) (map (dumps_at (Suc level)) vs)"
    have d: "dumps_at level (JArr vs) = 91 # newline_indent (Suc level) @ ?j @ newline_indent level @ [93]"
      using False by (simp add: item_sep_def)
    have ih: "\<forall>v \<in> set vs. \<forall>rest f. number_stops rest \<longrightarrow> length (dumps_at (Suc level) v) \<le> f \<longrightarrow>
           scan_once f (dumps_at (Suc level) v @ rest) = Some (v, rest)"
      using JArr.IH JArr.prems(1) by (auto simp: list_all_iff)
    have lj: "length ?j < n" using JArr.prems(3) f unfolding d by (simp add: newline_indent_def)
    have items: "scan_items n (?j @ newline_indent level @ 93 # rest) = Some (vs, rest)"
      using False ih lj by (rule scan_items_joined)
    have sv: "starts_value ?j" using False by (intro join_starts) (simp_all add: dumps_at_starts)
    then obtain c cs where c: "?j = c # cs" "c \<noteq> 93"
      by (auto simp: starts_value_def is_digit_def)
    have sk: "skip_ws (newline_indent (Suc level) @ ?j @ newline_indent level @ 93 # rest) =
        ?j @ newline_indent level @ 93 # rest"
      using sv by (simp add: skip_ws_newline_indent skip_ws_value starts_value_append)
    show ?thesis
      unfolding d f using items c(2)
      by (simp add: scan_once.simps sk) (simp add: c(1))
  qed
next
  case (JObj d)
  from JObj.prems(3) obtain n where f: "f = Suc n"
    using length_dumps_pos [of level "JObj d"] by (cases f) auto
  show ?case
  proof (cases "d = []")
    case True
    then show ?thesis by (simp add: scan_once.simps f str_def skip_ws_def json_ws_def)
  next
    case False
    let ?j = "join (item_sep level) (map (member_text level) d)"
    have e: "dumps_at level (JObj d) = 123 # newline_indent (Suc level) @ ?j @ newline_indent level @ [125]"
      using False by (simp add: item_sep_def member_text_def)
    have ih: "\<forall>kv \<in> set d. valid_text (fst kv) \<and> (\<forall>rest f. number_stops rest \<longrightarrow>
           length (dumps_at (Suc level) (snd kv)) \<le> f \<longrightarrow>
           scan_once f (dumps_at (Suc level) (snd kv) @ rest) = Some (snd kv, rest))"
    proof
      fix kv assume kv: "kv \<in> set d"
      obtain k v where p: "kv = (k, v)" by (cases kv)
      from kv p JObj.prems(1) have w: "valid_text k" "wf_json v" by (auto simp: list_all_iff)
      have "v \<in> Basic_BNFs.snds kv" using p by simp
      from JObj.IH [OF kv this w(2)] w(1) p
      show "valid_text (fst kv) \<and> (\<forall>rest f. number_stops rest \<longrightarrow>
           length (dumps_at (Suc level) (snd kv)) \<le> f \<longrightarrow>
           scan_once f (dumps_at (Suc level) (snd kv) @ rest) = Some (snd kv, rest))"
        by simp
    qed
    have lj: "length ?j < n" using JObj.prems(3) f unfolding e by (simp add: newline_indent_def)
    have members: "scan_members n (?j @ newline_indent level @ 125 # rest) = Some (d, rest)"
      using False ih lj by (rule scan_members_joined)
    have sv: "starts_value ?j" using False by (intro join_starts) (simp_all add: member_text_starts)
    obtain kv0 d0 where d0: "d = kv0 # d0" using False by (cases d) auto
    have "\<exists>cs. ?j = 34 # cs"
      by (cases kv0; cases d0) (simp_all add: d0 member_text_def encode_str_def)
    then obtain cs where c: "?j = 34 # cs" by blast
    have sk: "skip_ws (newline_indent (Suc level) @ ?j @ newline_indent level @ 125 # rest) =
        ?j @ newline_indent level @ 125 # rest"
      using sv by (simp add: skip_ws_newline_indent skip_ws_value starts_value_append)
    have dd: "dict_of_pairs d = d" using JObj.prems(1) by (simp add: dict_of_pairs_distinct)
    show ?thesis
      unfolding e f using members dd
      by (simp add: scan_once.simps sk) (simp add: c)
  qed
qed

lemma json_loads_dumps: "wf_json v \<Longrightarrow> json_loads (json_dumps v) = Some v"
proof -
  assume w: "wf_json v"
  have "skip_ws (dumps_at 0 v) = dumps_at 0 v"
    by (simp add: skip_ws_value dumps_at_starts)
  moreover have "scan_once (Suc (length (dumps_at 0 v))) (dumps_at 0 v @ []) = Some (v, [])"
    using w by (intro scan_once_dumps) simp_all
  ultimately show ?thesis by (simp add: json_loads_def json_dumps_def skip_ws_def)
qed

lemma of_char_bound: "(of_char x :: nat) < 256"
proof -
  have "(of_char x :: nat) mod 256 = of_char x" by (rule of_char_mod_256)
  moreover have "(of_char x :: nat) mod 256 < 256" by simp
  ultimately show ?thesis by simp
qed

lemma valid_text_str: "valid_text (str s)"
proof -
  have "valid_cp c" if "c \<in> set (str s)" for c
  proof -
    from that obtain x :: char where x: "c = of_char x" by (auto simp: str_def)
    have "c < 256" unfolding x by (rule of_char_bound)
    then show ?thesis by (simp add: valid_cp_def)
  qed
  then show ?thesis by (simp add: valid_text_def list_all_iff)
qed

lemma str_eq_iff: "str a = str b \<longleftrightarrow> a = b"
  by (simp add: str_def inj_of_char)

lemma wf_use_case_dict: "valid_use_case u \<Longrightarrow> wf_json (use_case_dict u)"
  by (simp add: use_case_dict_def valid_use_case_def valid_text_str str_eq_iff list_all_iff)

text \<open>
  Claim C9. For a use case and an evaluation that are well formed and a well-formed
  time text, the export is a JSON text that decodes to a dictionary with exactly the keys
  \<open>use_case\<close>, \<open>evaluation\<close> and \<open>generated_at\<close>, in this order, whose values are the
  dictionary of the use case, the evaluation and the time text as they were given.
\<close>

theorem export_round_trip:
  assumes "valid_use_case use_case" and "wf_json result" and "valid_text generated_at"
  shows "json_loads (export_json use_case result generated_at) =
           Some (JObj [(str ''use_case'', use_case_dict use_case),
                       (str ''evaluation'', result),
                       (str ''generated_at'', JStr generated_at)])"
proof -
  have "wf_json (export_bundle use_case result generated_at)"
    using assms wf_use_case_dict [OF assms(1)]
    by (simp add: export_bundle_def valid_text_str str_eq_iff)
  then have "json_loads (json_dumps (export_bundle use_case result generated_at)) =
      Some (export_bundle use_case result generated_at)"
    by (rule json_loads_dumps)
  then show ?thesis by (simp add: export_json_def export_bundle_def)
qed

theorem export_round_trip_witness:
  \<open>json_loads
     (export_json
        \<lparr>name = str ''Resume Screener'', department = str ''Human Resources'',
         ai_techniques = str ''Not specified'', stage = str ''Not specified'',
         markets = [str ''United States''], data_types = [str ''PII''],
         description = str ''Screens resumes using NLP.''\<rparr>
        (JObj [(str ''overall_score'', JInt 78), (str ''risk_level'', JStr (str ''HIGH'')),
               (str ''risks'', JObj []), (str ''recommended_actions'', JArr [JNull, JBool True]),
               (str ''executive_summary'', JStr [233, 0x1F50D, 10])])
        (str ''2026-01-02T03:04:05.000006'')) =
   Some (JObj
     [(str ''use_case'',
       use_case_dict
        \<lparr>name = str ''Resume Screener'', department = str ''Human Resources'',
         ai_techniques = str ''Not specified'', stage = str ''Not specified'',
         markets = [str ''United States''], data_types = [str ''PII''],
         description = str ''Screens resumes using NLP.''\<rparr>),
      (str ''evaluation'',
       JObj [(str ''overall_score'', JInt 78), (str ''risk_level'', JStr (str ''HIGH'')),
             (str ''risks'', JObj []), (str ''recommended_actions'', JArr [JNull, JBool True]),
             (str ''executive_summary'', JStr [233, 0x1F50D, 10])]),
      (str ''generated_at'', JStr (str ''2026-01-02T03:04:05.000006''))])\<close>
  using export_round_trip [of
        \<open>\<lparr>name = str ''Resume Screener'', department = str ''Human Resources'',
         ai_techniques = str ''Not specified'', stage = str ''Not specified'',
         markets = [str ''United States''], data_types = [str ''PII''],
         description = str ''Screens resumes using NLP.''\<rparr>\<close>
        \<open>JObj [(str ''overall_score'', JInt 78), (str ''risk_level'', JStr (str ''HIGH'')),
               (str ''risks'', JObj []), (str ''recommended_actions'', JArr [JNull, JBool True]),
               (str ''executive_summary'', JStr [233, 0x1F50D, 10])]\<close>
        \<open>str ''2026-01-02T03:04:05.000006''\<close>]
  by (simp add: valid_use_case_def valid_text_str) (simp add: valid_text_def valid_cp_def str_def)

end
